theory Spec2Isabelle
  imports Main "HOL-Library.Word" "HOL-Library.Sublist"
begin

unbundle bit_operations_syntax

section \<open>Data model of \<open>huffman_codec\<close>\<close>

text \<open>
  The codec of \<open>src/huffman.cpp\<close>. \<open>unsigned char\<close> is an 8-bit word, \<open>unsigned int\<close> a
  32-bit word (arithmetic wraps modulo \<open>2 ^ 32\<close>), \<open>unsigned long\<close> a 64-bit word (LP64).

  A tree node is either a leaf (\<open>internal_node = false\<close>, with its \<open>character\<close>) or an
  internal node (\<open>internal_node = true\<close>, with \<open>left\<close> and \<open>right\<close>). The C code links nodes by
  pointers into two arrays and never changes a node once it is the child of another node,
  except for its \<open>parent\<close> field, which is written and never read. The tree is therefore
  modelled as a value, without the \<open>parent\<close> field.
\<close>

type_synonym byte = "8 word"
type_synonym u32 = "32 word"
type_synonym u64 = "64 word"

datatype node =
    Leaf (character: byte) (count: u32)
  | internal_node: Internal (count: u32) (left: node) (right: node)

text \<open>\<open>struct code\<close>: \<open>int length; unsigned int value\<close>.\<close>

record code =
  length_c :: int
  value_c :: u32

text \<open>
  \<open>struct bit_cursor\<close> and \<open>struct bit_cursor_read\<close>: \<open>bytePtr\<close> is the index of the current
  byte in the buffer the cursor walks, \<open>curBit\<close> the number of bits of that byte already
  used.
\<close>

record bit_cursor =
  bytePtr :: nat
  curBit :: nat

text \<open>
  What C leaves undefined is an error value of the model: a read or a write outside the
  buffer, a read of an array element that was never written, a shift of a 32-bit \<open>int\<close> by
  32 or more, a null \<open>head\<close>.
\<close>

datatype error = OutOfBounds | Uninitialised | UndefinedShift | NullPointer

text \<open>
  The fields of the class. \<open>sorted_leaf_nodes\<close> holds the entries written so far (an index
  at or beyond its length is an element that was never written). \<open>internal_nodes\<close> is the
  pool the internal nodes are taken from; in the model \<open>Internal\<close> builds them.
\<close>

record huffman_codec =
  sorted_leaf_nodes :: "node list"
  head :: "node option"
  char_frequency :: "byte \<Rightarrow> u32"
  max_freq :: u32
  codes :: "byte \<Rightarrow> code"

definition LAST_NODE :: u32 where
  "LAST_NODE = - 1"

text \<open>
  A freshly constructed codec: \<open>char_frequency = {}\<close>, \<open>max_freq = 0\<close>, \<open>head = nullptr\<close>.
  \<open>codes\<close> has no initialiser: its content is the parameter \<open>garbage\<close>.
\<close>

definition new_codec :: "(byte \<Rightarrow> code) \<Rightarrow> huffman_codec" where
  "new_codec garbage =
     \<lparr>sorted_leaf_nodes = [], head = None, char_frequency = (\<lambda>_. 0), max_freq = 0,
      codes = garbage\<rparr>"

section \<open>Frequency counter\<close>

definition count_step :: "huffman_codec \<Rightarrow> byte \<Rightarrow> huffman_codec" where
  "count_step cd b =
     (let cf = (char_frequency cd)(b := char_frequency cd b + 1)
      in cd\<lparr>char_frequency := cf,
            max_freq := (if cf b > max_freq cd then cf b else max_freq cd)\<rparr>)"

definition count_chars :: "byte list \<Rightarrow> huffman_codec \<Rightarrow> huffman_codec" where
  "count_chars bufin cd = foldl count_step (cd\<lparr>max_freq := 0\<rparr>) bufin"

section \<open>Radix sorter\<close>

text \<open>
  \<open>(char_frequency[c] / div) % 10\<close> with \<open>div = pow(10, r)\<close>; \<open>r\<close> is at most 9 here, so
  \<open>div\<close> fits an \<open>int\<close>.
\<close>

definition radix_digit :: "(byte \<Rightarrow> u32) \<Rightarrow> nat \<Rightarrow> byte \<Rightarrow> nat" where
  "radix_digit cf r c = (unat (cf c) div 10 ^ r) mod 10"

definition sort_radix ::
  "(byte \<Rightarrow> u32) \<Rightarrow> nat \<Rightarrow> byte list \<Rightarrow> byte list \<Rightarrow> byte list" where
  "sort_radix cf r in_array out_array =
     (let symbol_count =
            fold (\<lambda>i sc. sc[radix_digit cf r (in_array ! i) :=
                              sc ! radix_digit cf r (in_array ! i) + 1])
              [0..<256] (replicate 10 (0::nat));
          offsets =
            fold (\<lambda>i off. off[i := off ! (i - 1) + symbol_count ! (i - 1)])
              [1..<10] (replicate 10 (0::nat))
      in fst (fold (\<lambda>i (out, off).
                 let symbol = radix_digit cf r (in_array ! i)
                 in (out[off ! symbol := in_array ! i], off[symbol := off ! symbol + 1]))
               [0..<256] (out_array, offsets)))"

text \<open>
  \<open>ceil(log10(max_freq))\<close>: the least \<open>k\<close> with \<open>max_freq \<le> 10 ^ k\<close>. For \<open>max_freq = 0\<close>
  the C expression is \<open>ceil(-inf)\<close> converted to \<open>int\<close>; the loop it bounds then makes no
  pass, which is what 0 gives here.
\<close>

fun ceil_log10 :: "nat \<Rightarrow> nat" where
  "ceil_log10 n = (if n \<le> 1 then 0 else Suc (ceil_log10 ((n + 9) div 10)))"

declare ceil_log10.simps [simp del]

definition sort_passes :: "(byte \<Rightarrow> u32) \<Rightarrow> nat \<Rightarrow> byte list \<times> byte list" where
  "sort_passes cf max_radix =
     fold (\<lambda>i (a_in, a_out). (sort_radix cf i a_in a_out, a_in)) [0..<max_radix]
       (map of_nat [0..<256], replicate 256 0)"

definition sort_chars :: "huffman_codec \<Rightarrow> huffman_codec" where
  "sort_chars cd =
     (let cf = char_frequency cd;
          max_radix = ceil_log10 (unat (max_freq cd));
          sorted = fst (sort_passes cf max_radix)
      in cd\<lparr>sorted_leaf_nodes :=
              map (\<lambda>c. Leaf c (cf c)) (filter (\<lambda>c. cf c > 0) sorted) @ [Leaf 0 LAST_NODE]\<rparr>)"

section \<open>Tree builder\<close>

text \<open>
  \<open>std::priority_queue\<close> with the comparison \<open>left->count > right->count\<close>: \<open>top\<close> is an
  element of least count. Which one of several elements of the same least count it is, the
  library leaves open; the parameter \<open>tie\<close> decides it, from the queue's content (the
  elements in the order they were pushed).
\<close>

type_synonym tie_break = "node list \<Rightarrow> nat"

definition pq_candidates :: "node list \<Rightarrow> nat list" where
  "pq_candidates q = filter (\<lambda>i. list_all (\<lambda>n. count (q ! i) \<le> count n) q) [0..<length q]"

definition pq_index :: "tie_break \<Rightarrow> node list \<Rightarrow> nat" where
  "pq_index tie q = pq_candidates q ! (tie q mod length (pq_candidates q))"

definition pq_top :: "tie_break \<Rightarrow> node list \<Rightarrow> node" where
  "pq_top tie q = q ! pq_index tie q"

definition pq_pop :: "tie_break \<Rightarrow> node list \<Rightarrow> node list" where
  "pq_pop tie q = take (pq_index tie q) q @ drop (Suc (pq_index tie q)) q"

definition pq_push :: "node \<Rightarrow> node list \<Rightarrow> node list" where
  "pq_push n q = q @ [n]"

definition get_min_node ::
  "tie_break \<Rightarrow> node list \<Rightarrow> nat \<Rightarrow> node list \<Rightarrow> error + (node \<times> nat \<times> node list)" where
  "get_min_node tie leaves leaf_idx node_q =
     (if length leaves \<le> leaf_idx then Inl Uninitialised
      else if node_q = [] \<or> count (leaves ! leaf_idx) < count (pq_top tie node_q)
      then Inr (leaves ! leaf_idx, leaf_idx + 1, node_q)
      else Inr (pq_top tie node_q, leaf_idx, pq_pop tie node_q))"

definition build_node :: "node \<Rightarrow> node \<Rightarrow> node" where
  "build_node l r = Internal (count l + count r) l r"

lemma pq_candidates_nonempty: "q \<noteq> [] \<Longrightarrow> pq_candidates q \<noteq> []"
proof -
  assume "q \<noteq> []"
  then have "Min (count ` set q) \<in> count ` set q"
    by (intro Min_in) auto
  then obtain n where n: "n \<in> set q" "count n = Min (count ` set q)"
    by auto
  then obtain i where i: "i < length q" "q ! i = n"
    by (auto simp: in_set_conv_nth)
  have "list_all (\<lambda>m. count (q ! i) \<le> count m) q"
    using n i by (auto simp: list_all_iff)
  with i have "i \<in> set (pq_candidates q)"
    by (simp add: pq_candidates_def)
  then show ?thesis by auto
qed

lemma pq_index_less: "q \<noteq> [] \<Longrightarrow> pq_index tie q < length q"
proof -
  assume "q \<noteq> []"
  then have "pq_index tie q \<in> set (pq_candidates q)"
    unfolding pq_index_def by (intro nth_mem mod_less_divisor) (simp add: pq_candidates_nonempty)
  then show ?thesis by (simp add: pq_candidates_def)
qed

lemma pq_top_least: "q \<noteq> [] \<Longrightarrow> n \<in> set q \<Longrightarrow> count (pq_top tie q) \<le> count n"
proof -
  assume "q \<noteq> []" and n: "n \<in> set q"
  then have "pq_index tie q \<in> set (pq_candidates q)"
    unfolding pq_index_def by (intro nth_mem mod_less_divisor) (simp add: pq_candidates_nonempty)
  with n show ?thesis by (simp add: pq_candidates_def pq_top_def list_all_iff)
qed

lemma length_pq_pop: "q \<noteq> [] \<Longrightarrow> Suc (length (pq_pop tie q)) = length q"
  using pq_index_less [of q tie] by (simp add: pq_pop_def)

lemma get_min_node_measure:
  "get_min_node tie leaves i q = Inr (n, i', q') \<Longrightarrow>
   (length leaves - i') + length q' < (length leaves - i) + length q"
  using length_pq_pop [of q tie] by (auto simp: get_min_node_def split: if_splits)

function huff_loop :: "tie_break \<Rightarrow> node list \<Rightarrow> nat \<Rightarrow> node list \<Rightarrow> error + node" where
  "huff_loop tie leaves leaf_idx node_q =
     (case get_min_node tie leaves leaf_idx node_q of
        Inl e \<Rightarrow> Inl e
      | Inr (l, idx1, q1) \<Rightarrow>
          if length leaves \<le> idx1 then Inl Uninitialised
          else if count (leaves ! idx1) = LAST_NODE \<and> q1 = [] then Inr l
          else (case get_min_node tie leaves idx1 q1 of
                  Inl e \<Rightarrow> Inl e
                | Inr (r, idx2, q2) \<Rightarrow>
                    huff_loop tie leaves idx2 (pq_push (build_node l r) q2)))"
  by pat_completeness auto
termination
proof (relation "measure (\<lambda>(tie, leaves, i, q). (length leaves - i) + length q)", goal_cases)
  case 1
  show ?case by simp
next
  case (2 tie leaves leaf_idx node_q x2 l y idx1 q1 x2a r ya idx2 q2)
  then have "get_min_node tie leaves leaf_idx node_q = Inr (l, idx1, q1)"
    and "get_min_node tie leaves idx1 q1 = Inr (r, idx2, q2)"
    by simp_all
  then have "(length leaves - idx2) + length q2 + 1 < (length leaves - leaf_idx) + length node_q"
    using get_min_node_measure [of tie leaves leaf_idx node_q l idx1 q1]
      get_min_node_measure [of tie leaves idx1 q1 r idx2 q2]
    by linarith
  then show ?case by (simp add: pq_push_def)
qed

declare huff_loop.simps [simp del]

definition huff_tree :: "tie_break \<Rightarrow> huffman_codec \<Rightarrow> error + huffman_codec" where
  "huff_tree tie cd =
     (let cd1 = sort_chars cd
      in case huff_loop tie (sorted_leaf_nodes cd1) 0 [] of
           Inl e \<Rightarrow> Inl e
         | Inr h \<Rightarrow> Inr (cd1\<lparr>head := Some h\<rparr>))"

section \<open>Code generator\<close>

fun gen_codes_from :: "node \<Rightarrow> code \<Rightarrow> (byte \<Rightarrow> code) \<Rightarrow> (byte \<Rightarrow> code)" where
  "gen_codes_from (Internal cnt l r) cur_code cs =
     (let cur1 = cur_code\<lparr>length_c := length_c cur_code + 1,
                          value_c := push_bit 1 (value_c cur_code)\<rparr>;
          cs1 = gen_codes_from l cur1 cs;
          cur2 = cur1\<lparr>value_c := value_c cur1 OR 1\<rparr>
      in gen_codes_from r cur2 cs1)"
| "gen_codes_from (Leaf c cnt) cur_code cs = cs(c := cur_code)"

definition gen_codes :: "huffman_codec \<Rightarrow> error + huffman_codec" where
  "gen_codes cd =
     (case head cd of
        None \<Rightarrow> Inl NullPointer
      | Some h \<Rightarrow> Inr (cd\<lparr>codes := gen_codes_from h \<lparr>length_c = 0, value_c = 0\<rparr> (codes cd)\<rparr>))"

section \<open>Bit packer and unpacker\<close>

text \<open>
  \<open>bitWrite(int bits, int value, bit_cursor& cursor)\<close> on the buffer \<open>buf\<close> the cursor
  points into. \<open>bits\<close> is the C \<open>bits\<close> when that is positive and 0 otherwise (the loop
  runs while \<open>bits > 0\<close>). \<open>value\<close> is a signed 32-bit \<open>int\<close>: \<open>>>\<close> is the arithmetic
  shift, and \<open>(1 << k) - 1\<close> is computed modulo \<open>2 ^ 32\<close>. \<open>curBit\<close> is below 8 in every
  cursor the program builds, where \<open>8 - curBit\<close> is the \<open>bitsLeftInByte\<close> of the code.
\<close>

function bitWrite ::
  "nat \<Rightarrow> u32 \<Rightarrow> byte list \<Rightarrow> bit_cursor \<Rightarrow> error + (byte list \<times> bit_cursor)" where
  "bitWrite bits val buf cursor =
     (if 0 < bits then
        (let bitsLeftInByte = 8 - curBit cursor
         in if length buf \<le> bytePtr cursor then Inl OutOfBounds
            else if bits < bitsLeftInByte then
              (let buf1 = buf[bytePtr cursor :=
                            buf ! bytePtr cursor OR ucast (push_bit (bitsLeftInByte - bits) val)];
                   cursor1 = cursor\<lparr>curBit := curBit cursor + bits\<rparr>;
                   cursor2 = (if 8 \<le> curBit cursor1
                              then cursor1\<lparr>curBit := 0, bytePtr := bytePtr cursor1 + 1\<rparr>
                              else cursor1)
               in bitWrite 0 val buf1 cursor2)
            else if 32 \<le> bits - bitsLeftInByte then Inl UndefinedShift
            else
              (let buf1 = buf[bytePtr cursor :=
                            buf ! bytePtr cursor OR
                            ucast (signed_drop_bit (bits - bitsLeftInByte) val)];
                   val1 = val AND (push_bit (bits - bitsLeftInByte) 1 - 1)
               in bitWrite (bits - bitsLeftInByte) val1 buf1
                    (cursor\<lparr>curBit := 0, bytePtr := bytePtr cursor + 1\<rparr>)))
      else Inr (buf, cursor))"
  by pat_completeness auto
termination
  by (relation "measure (\<lambda>(bits, val, buf, cursor). 2 * bits + (if 8 \<le> curBit cursor then 1 else 0))")
    auto

declare bitWrite.simps [simp del]

text \<open>The lambda \<open>get_bits\<close> of \<open>bitRead\<close>.\<close>

definition get_bits :: "byte list \<Rightarrow> bit_cursor \<Rightarrow> nat \<Rightarrow> byte" where
  "get_bits buf cursor bits =
     (let mask = (ucast (push_bit bits (1::u32) - 1) :: byte)
      in ucast (drop_bit (8 - curBit cursor - bits) (ucast (buf ! bytePtr cursor) :: u32)
                AND ucast mask))"

function bitRead_loop ::
  "nat \<Rightarrow> u32 \<Rightarrow> byte list \<Rightarrow> bit_cursor \<Rightarrow> error + (u32 \<times> bit_cursor)" where
  "bitRead_loop bits data buf cursor =
     (if 0 < bits then
        (let bitsLeftInByte = 8 - curBit cursor
         in if length buf \<le> bytePtr cursor then Inl OutOfBounds
            else if bits < bitsLeftInByte then
              (let dataRead = (ucast (get_bits buf cursor bits) :: u32)
               in bitRead_loop 0 (push_bit bits data OR dataRead) buf
                    (cursor\<lparr>curBit := curBit cursor + bits\<rparr>))
            else
              (let dataRead = (ucast (get_bits buf cursor bitsLeftInByte) :: u32)
               in bitRead_loop (bits - bitsLeftInByte)
                    (push_bit bitsLeftInByte data OR dataRead) buf
                    (cursor\<lparr>bytePtr := bytePtr cursor + 1, curBit := 0\<rparr>)))
      else Inr (data, cursor))"
  by pat_completeness auto
termination
  by (relation "measure (\<lambda>(bits, data, buf, cursor). 2 * bits + (if 8 \<le> curBit cursor then 1 else 0))")
    auto

declare bitRead_loop.simps [simp del]

definition bitRead :: "nat \<Rightarrow> byte list \<Rightarrow> bit_cursor \<Rightarrow> error + (u32 \<times> bit_cursor)" where
  "bitRead bits buf cursor = bitRead_loop bits 0 buf cursor"

section \<open>Codec orchestration\<close>

definition calc_out_buff_size :: "huffman_codec \<Rightarrow> u32" where
  "calc_out_buff_size cd =
     (let bit_count =
            fold (\<lambda>i bc. bc + ucast (char_frequency cd (of_nat i) *
                                       word_of_int (length_c (codes cd (of_nat i)))))
              [0..<256] (0::u64)
      in ucast ((bit_count + 7) div 8 + 1024))"

text \<open>
  An \<open>unsigned int\<close> in memory: four bytes, least significant first (the byte order of the
  machines the program is built for; it is written and read back in the same order).
\<close>

definition store_u32 :: "byte list \<Rightarrow> nat \<Rightarrow> u32 \<Rightarrow> error + byte list" where
  "store_u32 buf pos w =
     (if length buf < pos + 4 then Inl OutOfBounds
      else Inr (buf[pos := ucast w, pos + 1 := ucast (drop_bit 8 w),
                    pos + 2 := ucast (drop_bit 16 w), pos + 3 := ucast (drop_bit 24 w)]))"

definition load_u32 :: "byte list \<Rightarrow> nat \<Rightarrow> error + u32" where
  "load_u32 buf pos =
     (if length buf < pos + 4 then Inl OutOfBounds
      else Inr (ucast (buf ! pos) OR push_bit 8 (ucast (buf ! (pos + 1))) OR
                push_bit 16 (ucast (buf ! (pos + 2))) OR push_bit 24 (ucast (buf ! (pos + 3)))))"

fun write_char_freq_loop ::
  "(byte \<Rightarrow> u32) \<Rightarrow> nat list \<Rightarrow> byte list \<Rightarrow> nat \<Rightarrow> error + (byte list \<times> nat)" where
  "write_char_freq_loop cf [] buf intPtr = Inr (buf, intPtr)"
| "write_char_freq_loop cf (i # rest) buf intPtr =
     (case store_u32 buf intPtr (cf (of_nat i)) of
        Inl e \<Rightarrow> Inl e
      | Inr buf1 \<Rightarrow> write_char_freq_loop cf rest buf1 (intPtr + 4))"

definition write_char_freq ::
  "huffman_codec \<Rightarrow> byte list \<Rightarrow> nat \<Rightarrow> error + (byte list \<times> nat)" where
  "write_char_freq cd buf pbufout = write_char_freq_loop (char_frequency cd) [0..<256] buf pbufout"

fun encode_loop ::
  "(byte \<Rightarrow> code) \<Rightarrow> byte list \<Rightarrow> byte list \<Rightarrow> bit_cursor \<Rightarrow> error + (byte list \<times> bit_cursor)" where
  "encode_loop cs [] buf outCursor = Inr (buf, outCursor)"
| "encode_loop cs (b # rest) buf outCursor =
     (case bitWrite (nat (length_c (cs b))) (value_c (cs b)) buf outCursor of
        Inl e \<Rightarrow> Inl e
      | Inr (buf1, cursor1) \<Rightarrow> encode_loop cs rest buf1 cursor1)"

definition encode :: "huffman_codec \<Rightarrow> byte list \<Rightarrow> byte list \<Rightarrow> nat \<Rightarrow> error + byte list" where
  "encode cd bufin buf pbufout =
     (case encode_loop (codes cd) bufin buf \<lparr>bytePtr = pbufout, curBit = 0\<rparr> of
        Inl e \<Rightarrow> Inl e
      | Inr (buf1, cursor) \<Rightarrow> Inr buf1)"

text \<open>
  The state of the loop of \<open>read_char_freq\<close>: the frequency table, \<open>max_freq\<close>, \<open>totalSize\<close>,
  \<open>uniqueChars\<close> and the read position \<open>intPtr\<close>.
\<close>

record read_state =
  rs_freq :: "byte \<Rightarrow> u32"
  rs_max :: u32
  rs_total :: u32
  rs_unique :: u32
  rs_ptr :: nat

fun read_char_freq_loop :: "byte list \<Rightarrow> nat list \<Rightarrow> read_state \<Rightarrow> error + read_state" where
  "read_char_freq_loop bufin [] st = Inr st"
| "read_char_freq_loop bufin (i # rest) st =
     (case load_u32 bufin (rs_ptr st) of
        Inl e \<Rightarrow> Inl e
      | Inr w \<Rightarrow>
          read_char_freq_loop bufin rest
            \<lparr>rs_freq = (rs_freq st)(of_nat i := w),
             rs_max = (if w > rs_max st then w else rs_max st),
             rs_total = rs_total st + w,
             rs_unique = (if w > 0 then rs_unique st + 1 else rs_unique st),
             rs_ptr = rs_ptr st + 4\<rparr>)"

text \<open>
  \<open>read_char_freq\<close> returns the codec, the advanced \<open>bufin\<close>, \<open>totalSize\<close> and \<open>uniqueChars\<close>.
  (\<open>bufinlen\<close> is decremented and never read again.)
\<close>

definition read_char_freq ::
  "huffman_codec \<Rightarrow> byte list \<Rightarrow> nat \<Rightarrow> u32 \<Rightarrow> error + (huffman_codec \<times> nat \<times> u32 \<times> u32)" where
  "read_char_freq cd bufin pos totalSize =
     (case read_char_freq_loop bufin [0..<256]
             \<lparr>rs_freq = char_frequency cd, rs_max = 0, rs_total = totalSize, rs_unique = 0,
              rs_ptr = pos\<rparr> of
        Inl e \<Rightarrow> Inl e
      | Inr st \<Rightarrow>
          Inr (cd\<lparr>char_frequency := rs_freq st, max_freq := rs_max st\<rparr>,
               rs_ptr st, rs_total st, rs_unique st))"

lemma bitRead_loop_0 [simp]: "bitRead_loop 0 d buf cur = Inr (d, cur)"
  by (simp add: bitRead_loop.simps)

lemma bitRead_loop_1_lt:
  "curBit cur < 8 \<Longrightarrow> bitRead_loop (Suc 0) d buf cur =
     (if length buf \<le> bytePtr cur then Inl OutOfBounds
      else if curBit cur < 7
      then Inr (push_bit (Suc 0) d OR ucast (get_bits buf cur (Suc 0)), cur\<lparr>curBit := curBit cur + 1\<rparr>)
      else Inr (push_bit (Suc 0) d OR ucast (get_bits buf cur (Suc 0)), cur\<lparr>bytePtr := bytePtr cur + 1, curBit := 0\<rparr>))"
  apply (subst bitRead_loop.simps)
  apply (auto simp: Let_def)
  apply (subgoal_tac "curBit cur = 7")
   apply simp
  apply arith
  done

lemma bitRead_loop_1_ge:
  "8 \<le> curBit cur \<Longrightarrow> bitRead_loop (Suc 0) d buf cur =
     (if length buf \<le> bytePtr cur then Inl OutOfBounds
      else bitRead_loop (Suc 0) (d OR ucast (get_bits buf cur 0)) buf (cur\<lparr>bytePtr := bytePtr cur + 1, curBit := 0\<rparr>))"
  apply (subst bitRead_loop.simps)
  apply (auto simp: Let_def)
  done

lemma bitRead_one_measure:
  "bitRead (Suc 0) buf cur = Inr (d, cur') \<Longrightarrow>
   8 * (length buf - bytePtr cur') - min (curBit cur') 8
     < 8 * (length buf - bytePtr cur) - min (curBit cur) 8"
  unfolding bitRead_def
  apply (cases "curBit cur < 8")
   apply (auto simp: bitRead_loop_1_lt bitRead_loop_1_ge split: if_splits)
  done

text \<open>
  \<open>decode\<close>: the loop runs while \<open>uniqueChars > 0\<close>. \<open>hd_node\<close> is \<open>head\<close>, \<open>out\<close> the output
  buffer with \<open>None\<close> for a byte that was never written, \<open>opos\<close> the position of \<open>pbufout\<close>
  in it, \<open>cf\<close> the table \<open>char_frequency\<close>.
\<close>

function decode_loop ::
  "node \<Rightarrow> byte list \<Rightarrow> bit_cursor \<Rightarrow> node \<Rightarrow> byte option list \<Rightarrow> nat \<Rightarrow> (byte \<Rightarrow> u32) \<Rightarrow> u32
   \<Rightarrow> error + (byte option list \<times> nat \<times> (byte \<Rightarrow> u32))" where
  "decode_loop hd_node bufin inCursor currentNode out opos cf uniqueChars =
     (if 0 < uniqueChars then
        (case bitRead 1 bufin inCursor of
           Inl e \<Rightarrow> Inl e
         | Inr (data, cursor1) \<Rightarrow>
             (let bit = (ucast data :: byte);
                  node1 = (if internal_node currentNode
                           then (if bit = 0 then left currentNode else right currentNode)
                           else currentNode)
              in if \<not> internal_node node1 then
                   (if length out \<le> opos then Inl OutOfBounds
                    else
                      (let out1 = out[opos := Some (character node1)];
                           cf1 = cf(character node1 := cf (character node1) - 1);
                           unique1 = (if cf1 (character node1) = 0 then uniqueChars - 1
                                      else uniqueChars)
                       in decode_loop hd_node bufin cursor1 hd_node out1 (opos + 1) cf1 unique1))
                 else decode_loop hd_node bufin cursor1 node1 out opos cf uniqueChars))
      else Inr (out, opos, cf))"
  by pat_completeness auto
termination
  by (relation "measure (\<lambda>(hd_node, bufin, cursor, currentNode, out, opos, cf, uniqueChars).
         8 * (length bufin - bytePtr cursor) - min (curBit cursor) 8)")
    (auto dest: bitRead_one_measure)

declare decode_loop.simps [simp del]

definition decode ::
  "huffman_codec \<Rightarrow> byte list \<Rightarrow> nat \<Rightarrow> byte option list \<Rightarrow> u32
   \<Rightarrow> error + (byte option list \<times> huffman_codec)" where
  "decode cd bufin pos pbufout uniqueChars =
     (case head cd of
        None \<Rightarrow> Inl NullPointer
      | Some h \<Rightarrow>
          (case decode_loop h bufin \<lparr>bytePtr = pos, curBit = 0\<rparr> h pbufout 0
                  (char_frequency cd) uniqueChars of
             Inl e \<Rightarrow> Inl e
           | Inr (out, opos, cf) \<Rightarrow> Inr (out, cd\<lparr>char_frequency := cf\<rparr>)))"

text \<open>
  \<open>huffman_encode\<close> returns the output buffer and \<open>*pbufoutlen\<close>. \<open>bufinlen\<close> is the length of
  \<open>bufin\<close> (an \<open>unsigned int\<close>: the list is shorter than \<open>2 ^ 32\<close>).
\<close>

definition huffman_encode ::
  "tie_break \<Rightarrow> (byte \<Rightarrow> code) \<Rightarrow> byte list \<Rightarrow> error + (byte list \<times> u32)" where
  "huffman_encode tie garbage bufin =
     (let codec = count_chars bufin (new_codec garbage)
      in case huff_tree tie codec of
           Inl e \<Rightarrow> Inl e
         | Inr codec1 \<Rightarrow>
             (case gen_codes codec1 of
                Inl e \<Rightarrow> Inl e
              | Inr codec2 \<Rightarrow>
                  (let pbufoutlen = calc_out_buff_size codec2;
                       pbufout = replicate (unat pbufoutlen) (0::byte)
                   in case write_char_freq codec2 pbufout 0 of
                        Inl e \<Rightarrow> Inl e
                      | Inr (buf1, curPtr) \<Rightarrow>
                          (case encode codec2 bufin buf1 curPtr of
                             Inl e \<Rightarrow> Inl e
                           | Inr buf2 \<Rightarrow> Inr (buf2, pbufoutlen)))))"

text \<open>
  \<open>huffman_decode\<close> takes the input buffer and the value \<open>*pbufoutlen\<close> has when it is
  called, and returns the output buffer and the new \<open>*pbufoutlen\<close>.
\<close>

definition huffman_decode ::
  "tie_break \<Rightarrow> (byte \<Rightarrow> code) \<Rightarrow> byte list \<Rightarrow> u32 \<Rightarrow> error + (byte option list \<times> u32)" where
  "huffman_decode tie garbage bufin pbufoutlen =
     (case read_char_freq (new_codec garbage) bufin 0 pbufoutlen of
        Inl e \<Rightarrow> Inl e
      | Inr (codec, pos, totalSize, uniqueChars) \<Rightarrow>
          (case huff_tree tie codec of
             Inl e \<Rightarrow> Inl e
           | Inr codec1 \<Rightarrow>
               (let pbufout = replicate (unat (totalSize + 1)) None
                in case decode codec1 bufin pos pbufout uniqueChars of
                     Inl e \<Rightarrow> Inl e
                   | Inr (out, codec2) \<Rightarrow>
                       if length out \<le> unat totalSize then Inl OutOfBounds
                       else Inr (out[unat totalSize := Some 0], totalSize + 1))))"

section \<open>Properties of the tree builder's selection\<close>

lemma pq_index_in_candidates:
  "q \<noteq> [] \<Longrightarrow> pq_index tie q \<in> set (pq_candidates q)"
  unfolding pq_index_def by (intro nth_mem mod_less_divisor) (simp add: pq_candidates_nonempty)

lemma pq_top_in_set: "q \<noteq> [] \<Longrightarrow> pq_top tie q \<in> set q"
  by (simp add: pq_top_def pq_index_less)

lemma count_pq_top: "q \<noteq> [] \<Longrightarrow> count (pq_top tie q) = Min (count ` set q)"
proof (rule antisym)
  assume q: "q \<noteq> []"
  show "Min (count ` set q) \<le> count (pq_top tie q)"
    using pq_top_in_set [OF q, of tie] by simp
  show "count (pq_top tie q) \<le> Min (count ` set q)"
    using q by (auto simp: pq_top_least)
qed

lemma get_min_node_takes_leaf_iff:
  assumes "leaf_idx < length leaves"
  shows "get_min_node tie leaves leaf_idx node_q = Inr (leaves ! leaf_idx, leaf_idx + 1, node_q)
         \<longleftrightarrow> node_q = [] \<or> count (leaves ! leaf_idx) < Min (count ` set node_q)"
  using assms by (cases "node_q = []") (auto simp: get_min_node_def count_pq_top)

text \<open>
  C3, as the code has it: when the count of the next unread leaf equals the least count in
  the queue of internal nodes, \<open>get_min_node\<close> returns the queued node of least count and
  pops it; the leaf stays unread. (The test in the code is a strict \<open><\<close>: the leaf is taken
  only when the queue is empty or the leaf's count is strictly smaller.)
\<close>

theorem get_min_node_prefers_queue_on_tie:
  assumes "leaf_idx < length leaves" and "node_q \<noteq> []"
    and "count (leaves ! leaf_idx) = Min (count ` set node_q)"
  shows "get_min_node tie leaves leaf_idx node_q =
           Inr (pq_top tie node_q, leaf_idx, pq_pop tie node_q)
         \<and> pq_top tie node_q \<in> set node_q
         \<and> count (pq_top tie node_q) = count (leaves ! leaf_idx)"
  using assms by (simp add: get_min_node_def count_pq_top pq_top_in_set)

theorem get_min_node_prefers_queue_on_tie_witness:
  "get_min_node (\<lambda>q. 0) [Leaf 5 3, Leaf 6 7, Leaf 0 LAST_NODE] 1
      [Internal 9 (Leaf 1 4) (Leaf 2 5), Internal 7 (Leaf 3 3) (Leaf 4 4)] =
     Inr (Internal 7 (Leaf 3 3) (Leaf 4 4), 1, [Internal 9 (Leaf 1 4) (Leaf 2 5)])"
  using get_min_node_prefers_queue_on_tie
    [of 1 "[Leaf 5 3, Leaf 6 7, Leaf 0 LAST_NODE]"
       "[Internal 9 (Leaf 1 4) (Leaf 2 5), Internal 7 (Leaf 3 3) (Leaf 4 4)]" "\<lambda>q. 0"]
  by (simp add: pq_top_def pq_pop_def pq_index_def pq_candidates_def)

text \<open>
  The input \<open>abcc\<close>: after the leaves \<open>a\<close> and \<open>b\<close> (count 1 each) are merged, the next
  unread leaf \<open>c\<close> and the queued internal node both have count 2, and the internal node is
  the one taken.
\<close>

theorem leaf_first_on_tie_counterexample:
  "count ([Leaf 97 1, Leaf 98 1, Leaf 99 2, Leaf 0 LAST_NODE] ! 2) =
     Min (count ` set [Internal 2 (Leaf 97 1) (Leaf 98 1)])
   \<and> get_min_node (\<lambda>q. 0) [Leaf 97 1, Leaf 98 1, Leaf 99 2, Leaf 0 LAST_NODE] 2
        [Internal 2 (Leaf 97 1) (Leaf 98 1)] =
      Inr (Internal 2 (Leaf 97 1) (Leaf 98 1), 2, [])"
  by (simp add: get_min_node_def pq_top_def pq_pop_def pq_index_def pq_candidates_def)

section \<open>Properties of the frequency counter\<close>

lemma count_chars_snoc: "count_chars (xs @ [x]) cd = count_step (count_chars xs cd) x"
  by (simp add: count_chars_def)

lemma count_chars_Nil: "count_chars [] cd = cd\<lparr>max_freq := 0\<rparr>"
  by (simp add: count_chars_def)

lemma char_frequency_count_step:
  "char_frequency (count_step cd b) c = char_frequency cd c + (if c = b then 1 else 0)"
  by (simp add: count_step_def Let_def)

lemma max_freq_count_step:
  "max_freq (count_step cd b) = max (max_freq cd) (char_frequency cd b + 1)"
  by (auto simp: count_step_def Let_def max_def)

lemma char_frequency_count_chars:
  "char_frequency (count_chars bufin cd) c = char_frequency cd c + of_nat (count_list bufin c)"
  by (induction bufin rule: rev_induct)
    (simp_all add: count_chars_Nil count_chars_snoc char_frequency_count_step)

lemma count_list_le_length: "count_list xs c \<le> length xs"
  by (induction xs) auto

lemma unat_char_frequency_fresh:
  assumes "length bufin < 2 ^ 32" and "\<forall>c. char_frequency cd c = 0"
  shows "unat (char_frequency (count_chars bufin cd) c) = count_list bufin c"
proof -
  have "count_list bufin c < 2 ^ 32"
    using assms(1) count_list_le_length [of bufin c] by linarith
  then show ?thesis
    using assms(2) by (simp add: char_frequency_count_chars unat_of_nat)
qed

lemma Max_count_list_snoc:
  "Max (range (count_list ((xs::byte list) @ [x]))) = max (Max (range (count_list xs))) (count_list xs x + 1)"
  (is "?L = ?R")
proof (rule antisym)
  have fin: "finite (range (count_list ys :: byte \<Rightarrow> nat))" for ys by simp
  show "?L \<le> ?R"
  proof (rule Max.boundedI)
    fix a assume "a \<in> range (count_list (xs @ [x]))"
    then obtain c where a: "a = count_list (xs @ [x]) c" by auto
    have "count_list xs c \<le> Max (range (count_list xs))"
      by (rule Max_ge) (simp_all)
    then show "a \<le> ?R" using a by (cases "c = x") (simp_all add: le_max_iff_disj)
  qed (simp_all)
  show "?R \<le> ?L"
  proof -
    have ge: "count_list (xs @ [x]) c \<le> ?L" for c
      by (rule Max_ge) simp_all
    have "Max (range (count_list xs)) \<le> ?L"
    proof (rule Max.boundedI)
      fix a assume "a \<in> range (count_list xs)"
      then obtain c where a: "a = count_list xs c" by auto
      have "count_list xs c \<le> count_list (xs @ [x]) c" by simp
      then show "a \<le> ?L" unfolding a using ge [of c] by (rule order_trans)
    qed simp_all
    moreover have "count_list xs x + 1 \<le> ?L"
    proof -
      have "count_list xs x + 1 = count_list (xs @ [x]) x" by simp
      then show ?thesis using ge [of x] by (simp only:)
    qed
    ultimately show ?thesis by (rule max.boundedI)
  qed
qed

lemma unat_max_freq_fresh:
  assumes "length bufin < 2 ^ 32" and "\<forall>c. char_frequency cd c = 0"
  shows "unat (max_freq (count_chars bufin cd)) = Max (range (count_list bufin))"
  using assms(1)
proof (induction bufin rule: rev_induct)
  case Nil
  show ?case by (simp add: count_chars_Nil)
next
  case (snoc x xs)
  then have IH: "unat (max_freq (count_chars xs cd)) = Max (range (count_list xs))"
    and len: "length xs + 1 < 2 ^ 32" by simp_all
  have cf: "unat (char_frequency (count_chars xs cd) x) = count_list xs x"
    using len assms(2) by (intro unat_char_frequency_fresh) simp_all
  have "count_list xs x \<le> length xs" by (rule count_list_le_length)
  then have lt: "count_list xs x + 1 < 2 ^ 32" using len by linarith
  have "unat (char_frequency (count_chars xs cd) x + 1) = count_list xs x + 1"
    using cf lt by (simp add: unat_word_ariths)
  then have "unat (max_freq (count_chars (xs @ [x]) cd))
      = max (Max (range (count_list xs))) (count_list xs x + 1)"
    using IH by (simp add: count_chars_snoc max_freq_count_step max_def word_less_nat_alt word_le_nat_alt)
  then show ?case by (simp only: Max_count_list_snoc)
qed

lemma count_chars_resets_max_freq:
  "count_chars bufin (cd\<lparr>max_freq := m\<rparr>) = count_chars bufin cd"
  by (simp add: count_chars_def)

text \<open>
  C8, as the code has it: \<open>count_chars\<close> resets \<open>max_freq\<close> and nothing else. Called on the
  freshly constructed codec (every count 0, as \<open>huffman_encode\<close> calls it) with an input
  shorter than \<open>2 ^ 32\<close>, it leaves in \<open>char_frequency[c]\<close> the number of occurrences of
  \<open>c\<close> in the input, and in \<open>max_freq\<close> the largest of these numbers. Called on any other
  state, it adds the occurrences to the counts that are there (modulo \<open>2 ^ 32\<close>); the
  previous \<open>max_freq\<close> has no effect on the result.
\<close>

theorem count_chars_counts:
  assumes "length bufin < 2 ^ 32"
  shows "(\<forall>c. unat (char_frequency (count_chars bufin (new_codec garbage)) c) = count_list bufin c)
    \<and> unat (max_freq (count_chars bufin (new_codec garbage))) = Max (range (count_list bufin))
    \<and> (\<forall>c. char_frequency (count_chars bufin cd) c =
             char_frequency cd c + of_nat (count_list bufin c))
    \<and> count_chars bufin (cd\<lparr>max_freq := m\<rparr>) = count_chars bufin cd"
proof -
  have fresh: "\<forall>c. char_frequency (new_codec garbage) c = 0"
    by (simp add: new_codec_def)
  show ?thesis
    using unat_char_frequency_fresh [OF assms fresh] unat_max_freq_fresh [OF assms fresh]
    by (simp add: char_frequency_count_chars count_chars_resets_max_freq)
qed

theorem count_chars_counts_witness:
  "length [0x41, 0x42, 0x41 :: byte] < 2 ^ 32
   \<and> unat (char_frequency (count_chars [0x41, 0x42, 0x41]
               (new_codec (\<lambda>_. \<lparr>length_c = 0, value_c = 0\<rparr>))) 0x41) = 2
   \<and> unat (max_freq (count_chars [0x41, 0x42, 0x41]
               (new_codec (\<lambda>_. \<lparr>length_c = 0, value_c = 0\<rparr>)))) =
       Max (range (count_list [0x41, 0x42, 0x41 :: byte]))
   \<and> max_freq (count_chars [0x41, 0x42, 0x41]
               (new_codec (\<lambda>_. \<lparr>length_c = 0, value_c = 0\<rparr>))) = 2"
proof -
  let ?g = "\<lambda>_::byte. \<lparr>length_c = 0, value_c = 0\<rparr>"
  let ?b = "[0x41, 0x42, 0x41 :: byte]"
  have len: "length ?b < 2 ^ 32" by simp
  from count_chars_counts [OF len, of ?g "new_codec ?g" 0]
  have 1: "\<forall>c. unat (char_frequency (count_chars ?b (new_codec ?g)) c) = count_list ?b c"
    and 2: "unat (max_freq (count_chars ?b (new_codec ?g))) = Max (range (count_list ?b))"
    by blast+
  from 1 have "unat (char_frequency (count_chars ?b (new_codec ?g)) 0x41) = count_list ?b 0x41"
    by (rule spec)
  also have "\<dots> = 2" by simp
  finally have 3: "unat (char_frequency (count_chars ?b (new_codec ?g)) 0x41) = 2" .
  have 4: "max_freq (count_chars ?b (new_codec ?g)) = 2"
    by (simp add: count_chars_def count_step_def new_codec_def)
  from len 3 2 4 show ?thesis by blast
qed

text \<open>
  A codec whose count of \<open>0x41\<close> is already 5: after \<open>count_chars\<close> on the one byte \<open>0x41\<close> the
  count is 6 and \<open>max_freq\<close> is 6, while \<open>0x41\<close> occurs once in the input.
\<close>

theorem count_chars_prior_state_counterexample:
  "char_frequency (count_chars [0x41]
      ((new_codec (\<lambda>_. \<lparr>length_c = 0, value_c = 0\<rparr>))
         \<lparr>char_frequency := (\<lambda>_. 0)(0x41 := 5)\<rparr>)) 0x41 = 6
   \<and> max_freq (count_chars [0x41]
      ((new_codec (\<lambda>_. \<lparr>length_c = 0, value_c = 0\<rparr>))
         \<lparr>char_frequency := (\<lambda>_. 0)(0x41 := 5)\<rparr>)) = 6
   \<and> count_list [0x41 :: byte] 0x41 = 1"
  by (simp add: count_chars_def count_step_def new_codec_def)

section \<open>The counting pass of the radix sorter\<close>

lemma fold_nth_upt: "fold (\<lambda>i. f (xs ! i)) [0..<length xs] s = fold f xs s"
proof -
  have "fold (\<lambda>i. f (xs ! i)) [0..<length xs] s = fold f (map ((!) xs) [0..<length xs]) s"
    by (simp add: fold_map comp_def)
  then show ?thesis by (simp add: map_nth)
qed

lemma concat_eq_by_nth:
  assumes "length out = length (concat segs)"
    and "\<And>d j. d < length segs \<Longrightarrow> j < length (segs ! d) \<Longrightarrow>
           out ! (length (concat (take d segs)) + j) = segs ! d ! j"
  shows "out = concat segs"
  using assms
proof (induction segs arbitrary: out)
  case Nil
  then show ?case by simp
next
  case (Cons s segs)
  have len: "length s \<le> length out" using Cons.prems(1) by simp
  have front: "take (length s) out = s"
  proof (rule nth_equalityI)
    show "length (take (length s) out) = length s" using len by simp
    fix i assume "i < length (take (length s) out)"
    then have i: "i < length s" by simp
    from Cons.prems(2) [of 0 i] i show "take (length s) out ! i = s ! i" by simp
  qed
  have tail_eq: "drop (length s) out = concat segs"
  proof (rule Cons.IH)
    show "length (drop (length s) out) = length (concat segs)"
      using Cons.prems(1) by simp
    fix d j assume d: "d < length segs" and j: "j < length (segs ! d)"
    have "length s + (length (concat (take d segs)) + j) < length out"
    proof -
      have "concat segs = concat (take d segs) @ segs ! d @ concat (drop (Suc d) segs)"
        using d by (metis append_take_drop_id concat.simps(2) concat_append Cons_nth_drop_Suc)
      then have "length (concat (take d segs)) + length (segs ! d) \<le> length (concat segs)"
        by (metis length_append le_add1 add.assoc)
      then show ?thesis using j Cons.prems(1) by simp
    qed
    then have "drop (length s) out ! (length (concat (take d segs)) + j)
          = out ! (length s + (length (concat (take d segs)) + j))"
      by (intro nth_drop) simp
    also have "\<dots> = (s # segs) ! Suc d ! j"
      using Cons.prems(2) [of "Suc d" j] d j by (simp add: add.assoc)
    finally show "drop (length s) out ! (length (concat (take d segs)) + j) = segs ! d ! j"
      by simp
  qed
  have "out = take (length s) out @ drop (length s) out" by simp
  then show ?case using front tail_eq by simp
qed


text \<open>
  The specification of one pass: the elements with digit 0 in their order, then those with
  digit 1, and so on (a stable sort by the digit).
\<close>

definition stable_by_digit :: "('a \<Rightarrow> nat) \<Rightarrow> 'a list \<Rightarrow> 'a list" where
  "stable_by_digit g xs = concat (map (\<lambda>d. filter (\<lambda>c. g c = d) xs) [0..<10])"

lemma symbol_count_fold:
  assumes "\<And>c. g c < 10"
  shows "fold (\<lambda>c sc. sc[g c := sc ! g c + 1]) xs (replicate 10 (0::nat)) =
         map (\<lambda>d. length (filter (\<lambda>c. g c = d) xs)) [0..<10]"
proof (induction xs rule: rev_induct)
  case Nil
  show ?case by (simp add: map_replicate_const del: upt_Suc replicate_Suc)
next
  case (snoc x xs)
  let ?F = "\<lambda>ys d. length (filter (\<lambda>c. g c = d) ys)"
  have "fold (\<lambda>c sc. sc[g c := sc ! g c + 1]) (xs @ [x]) (replicate 10 0)
      = (map (?F xs) [0..<10])[g x := map (?F xs) [0..<10] ! g x + 1]"
    using snoc.IH by simp
  also have "\<dots> = map (?F (xs @ [x])) [0..<10]"
  proof (rule nth_equalityI)
    fix i assume "i < length ((map (?F xs) [0..<10])[g x := map (?F xs) [0..<10] ! g x + 1])"
    then have i: "i < 10" by simp
    show "(map (?F xs) [0..<10])[g x := map (?F xs) [0..<10] ! g x + 1] ! i
        = map (?F (xs @ [x])) [0..<10] ! i"
      using i assms [of x] by (simp add: nth_list_update del: upt_Suc)
  qed simp
  finally show ?case .
qed

lemma offsets_fold_upto:
  assumes "length sc = 10" and "1 \<le> k" and "k \<le> 10"
  shows "fold (\<lambda>i off. off[i := off ! (i - 1) + sc ! (i - 1)]) [1..<k] (replicate 10 (0::nat)) =
         map (\<lambda>d. if d < k then sum_list (take d sc) else 0) [0..<10]"
  using assms(2,3)
proof (induction k)
  case 0
  then show ?case by simp
next
  case (Suc k)
  show ?case
  proof (cases "k = 0")
    case True
    have "replicate 10 (0::nat) = map (\<lambda>d. if d < Suc 0 then sum_list (take d sc) else 0) [0..<10]"
      by (rule nth_equalityI) (auto simp del: upt_Suc replicate_Suc)
    then show ?thesis using True by (simp del: upt_Suc replicate_Suc)
  next
    case False
    then have k: "1 \<le> k" "k \<le> 10" "k < 10" using Suc.prems by simp_all
    have IH: "fold (\<lambda>i off. off[i := off ! (i - 1) + sc ! (i - 1)]) [1..<k] (replicate 10 0) =
         map (\<lambda>d. if d < k then sum_list (take d sc) else 0) [0..<10]"
      using Suc.IH k by simp
    have step: "sum_list (take (k - 1) sc) + sc ! (k - 1) = sum_list (take k sc)"
    proof -
      have "take k sc = take (k - 1) sc @ [sc ! (k - 1)]"
        using k assms(1) take_Suc_conv_app_nth [of "k - 1" sc] by simp
      then show ?thesis by simp
    qed
    have "[1..<Suc k] = [1..<k] @ [k]" using k by simp
    then have "fold (\<lambda>i off. off[i := off ! (i - 1) + sc ! (i - 1)]) [1..<Suc k] (replicate 10 0)
        = (map (\<lambda>d. if d < k then sum_list (take d sc) else 0) [0..<10])
            [k := map (\<lambda>d. if d < k then sum_list (take d sc) else 0) [0..<10] ! (k - 1) + sc ! (k - 1)]"
      using IH by (simp del: upt_Suc)
    also have "\<dots> = map (\<lambda>d. if d < Suc k then sum_list (take d sc) else 0) [0..<10]"
    proof (rule nth_equalityI)
      fix i assume "i < length ((map (\<lambda>d. if d < k then sum_list (take d sc) else 0) [0..<10])
            [k := map (\<lambda>d. if d < k then sum_list (take d sc) else 0) [0..<10] ! (k - 1) + sc ! (k - 1)])"
      then have i: "i < 10" by simp
      show "(map (\<lambda>d. if d < k then sum_list (take d sc) else 0) [0..<10])
            [k := map (\<lambda>d. if d < k then sum_list (take d sc) else 0) [0..<10] ! (k - 1) + sc ! (k - 1)] ! i
          = map (\<lambda>d. if d < Suc k then sum_list (take d sc) else 0) [0..<10] ! i"
        using i k step by (auto simp: nth_list_update less_Suc_eq simp del: upt_Suc)
    qed simp
    finally show ?thesis .
  qed
qed

lemma offsets_fold:
  assumes "length sc = 10"
  shows "fold (\<lambda>i off. off[i := off ! (i - 1) + sc ! (i - 1)]) [1..<10] (replicate 10 (0::nat)) =
         map (\<lambda>d. sum_list (take d sc)) [0..<10]"
proof -
  have "map (\<lambda>d. if d < 10 then sum_list (take d sc) else 0) [0..<10] =
        map (\<lambda>d. sum_list (take d sc)) [0..<10]"
    by (rule map_cong) auto
  then show ?thesis using offsets_fold_upto [OF assms, of 10] by simp
qed


lemma sum_list_take_Suc:
  "d < length (ls :: nat list) \<Longrightarrow> sum_list (take (Suc d) ls) = sum_list (take d ls) + ls ! d"
  by (simp add: take_Suc_conv_app_nth)

lemma sum_list_take_mono:
  "d \<le> d' \<Longrightarrow> sum_list (take d (ls :: nat list)) \<le> sum_list (take d' ls)"
proof -
  assume "d \<le> d'"
  then have "take d' ls = take d ls @ take (d' - d) (drop d ls)"
    by (metis le_add_diff_inverse take_add)
  then show ?thesis by simp
qed

lemma sum_list_take_le: "sum_list (take d (ls :: nat list)) \<le> sum_list ls"
  using sum_list_take_mono [of d "length ls" ls] by (cases "d \<le> length ls") simp_all

lemma segment_positions_distinct:
  fixes ls :: "nat list"
  assumes "d < length ls" "d' < length ls" "d \<noteq> d'" "j < ls ! d" "j' < ls ! d'"
  shows "sum_list (take d ls) + j \<noteq> sum_list (take d' ls) + j'"
proof (cases "d < d'")
  case True
  then have "sum_list (take (Suc d) ls) \<le> sum_list (take d' ls)"
    by (intro sum_list_take_mono) simp
  then show ?thesis using assms by (simp add: sum_list_take_Suc)
next
  case False
  then have "sum_list (take (Suc d') ls) \<le> sum_list (take d ls)"
    using assms(3) by (intro sum_list_take_mono) simp
  then show ?thesis using assms by (simp add: sum_list_take_Suc)
qed

lemma segment_position_less:
  fixes ls :: "nat list"
  assumes "d < length ls" "j < ls ! d"
  shows "sum_list (take d ls) + j < sum_list ls"
proof -
  have "sum_list (take d ls) + j < sum_list (take (Suc d) ls)"
    using assms by (simp add: sum_list_take_Suc)
  also have "\<dots> \<le> sum_list ls" by (rule sum_list_take_le)
  finally show ?thesis .
qed

lemma length_stable_by_digit:
  assumes "\<And>c. g c < 10"
  shows "length (stable_by_digit g xs) = length xs"
proof -
  have "length (concat (map (\<lambda>d. filter (\<lambda>c. g c = d) xs) [0..<n])) =
        length (filter (\<lambda>c. g c < n) xs)" for n
  proof (induction n)
    case 0
    show ?case by simp
  next
    case (Suc n)
    have "length (filter (\<lambda>c. g c < n) xs) + length (filter (\<lambda>c. g c = n) xs) =
          length (filter (\<lambda>c. g c < Suc n) xs)"
      by (induction xs) (auto simp: less_Suc_eq)
    then show ?case using Suc by simp
  qed
  from this [of 10] show ?thesis using assms by (simp add: stable_by_digit_def)
qed


definition digit_counts :: "('a \<Rightarrow> nat) \<Rightarrow> 'a list \<Rightarrow> nat list" where
  "digit_counts g xs = map (\<lambda>d. length (filter (\<lambda>c. g c = d) xs)) [0..<10]"

definition scatter_step :: "('a \<Rightarrow> nat) \<Rightarrow> 'a \<Rightarrow> 'a list \<times> nat list \<Rightarrow> 'a list \<times> nat list" where
  "scatter_step g c = (\<lambda>(out, off).
      let symbol = g c in (out[off ! symbol := c], off[symbol := off ! symbol + 1]))"

lemma length_digit_counts [simp]: "length (digit_counts g xs) = 10"
  by (simp add: digit_counts_def)

lemma nth_digit_counts:
  "d < 10 \<Longrightarrow> digit_counts g xs ! d = length (filter (\<lambda>c. g c = d) xs)"
  by (simp add: digit_counts_def del: upt_Suc)

lemma sum_list_digit_counts:
  assumes "\<And>c. g c < 10"
  shows "sum_list (digit_counts g xs) = length xs"
  using length_stable_by_digit [OF assms, where xs = xs]
  by (simp add: stable_by_digit_def digit_counts_def length_concat comp_def del: upt_Suc)

lemma scatter_invariant:
  fixes g :: "'a \<Rightarrow> nat"
  assumes g: "\<And>c. g c < 10" and xs: "xs = p @ rest" and len: "length out0 = length xs"
  shows "\<exists>out. fold (scatter_step g) p
            (out0, map (\<lambda>d. sum_list (take d (digit_counts g xs))) [0..<10]) =
           (out, map (\<lambda>d. sum_list (take d (digit_counts g xs)) +
                          length (filter (\<lambda>c. g c = d) p)) [0..<10])
         \<and> length out = length xs
         \<and> (\<forall>d<10. \<forall>j<length (filter (\<lambda>c. g c = d) p).
               out ! (sum_list (take d (digit_counts g xs)) + j) = filter (\<lambda>c. g c = d) p ! j)"
  using xs
proof (induction p arbitrary: rest rule: rev_induct)
  case Nil
  show ?case using len by simp
next
  case (snoc c p)
  let ?base = "\<lambda>d. sum_list (take d (digit_counts g xs))"
  let ?cnt = "\<lambda>ys d. length (filter (\<lambda>c. g c = d) ys)"
  from snoc.prems have xs': "xs = p @ (c # rest)" by simp
  from snoc.IH [OF xs'] obtain out where
    fold: "fold (scatter_step g) p (out0, map ?base [0..<10]) =
           (out, map (\<lambda>d. ?base d + ?cnt p d) [0..<10])"
    and lout: "length out = length xs"
    and nth: "\<forall>d<10. \<forall>j<?cnt p d. out ! (?base d + j) = filter (\<lambda>c. g c = d) p ! j"
    by blast
  let ?d0 = "g c"
  let ?k0 = "?base ?d0 + ?cnt p ?d0"
  have d0: "?d0 < 10" by (rule g)
  have cnt_lt: "?cnt p ?d0 < digit_counts g xs ! ?d0"
    using d0 by (simp add: nth_digit_counts xs')
  have k0: "?k0 < length out"
    using segment_position_less [of ?d0 "digit_counts g xs" "?cnt p ?d0"] d0 cnt_lt
    by (simp add: sum_list_digit_counts [OF g] lout)
  let ?out' = "out[?k0 := c]"
  have off_eq: "(map (\<lambda>d. ?base d + ?cnt p d) [0..<10])
                  [?d0 := map (\<lambda>d. ?base d + ?cnt p d) [0..<10] ! ?d0 + 1]
              = map (\<lambda>d. ?base d + ?cnt (p @ [c]) d) [0..<10]"
  proof (rule nth_equalityI)
    fix i assume "i < length ((map (\<lambda>d. ?base d + ?cnt p d) [0..<10])
                  [?d0 := map (\<lambda>d. ?base d + ?cnt p d) [0..<10] ! ?d0 + 1])"
    then have "i < 10" by simp
    then show "(map (\<lambda>d. ?base d + ?cnt p d) [0..<10])
                  [?d0 := map (\<lambda>d. ?base d + ?cnt p d) [0..<10] ! ?d0 + 1] ! i
              = map (\<lambda>d. ?base d + ?cnt (p @ [c]) d) [0..<10] ! i"
      using d0 by (simp add: nth_list_update del: upt_Suc)
  qed simp
  have step: "fold (scatter_step g) (p @ [c]) (out0, map ?base [0..<10]) =
        (?out', map (\<lambda>d. ?base d + ?cnt (p @ [c]) d) [0..<10])"
    using d0 off_eq by (simp add: fold scatter_step_def Let_def del: upt_Suc)
  have nth': "?out' ! (?base d + j) = filter (\<lambda>c. g c = d) (p @ [c]) ! j"
    if d: "d < 10" and j: "j < ?cnt (p @ [c]) d" for d j
  proof (cases "d = ?d0")
    case True
    show ?thesis
    proof (cases "j = ?cnt p ?d0")
      case True
      then show ?thesis using \<open>d = ?d0\<close> k0 by (simp add: nth_append)
    next
      case False
      then have jlt: "j < ?cnt p d" using j \<open>d = ?d0\<close> by simp
      then have "?out' ! (?base d + j) = out ! (?base d + j)"
        using \<open>d = ?d0\<close> by simp
      then show ?thesis using nth d jlt \<open>d = ?d0\<close> by (simp add: nth_append)
    qed
  next
    case False
    then have jlt: "j < ?cnt p d" using j by simp
    have "j < digit_counts g xs ! d"
      using jlt d by (simp add: nth_digit_counts xs')
    then have "?base d + j \<noteq> ?k0"
      using segment_positions_distinct [of d "digit_counts g xs" ?d0 j "?cnt p ?d0"]
        d d0 False cnt_lt by simp
    then have "?out' ! (?base d + j) = out ! (?base d + j)" by simp
    then show ?thesis using nth d jlt False by simp
  qed
  show ?case
    using step lout nth' by (intro exI [of _ ?out']) simp
qed


lemma length_concat_take_segments:
  "length (concat (take d (map (\<lambda>d. filter (\<lambda>c. g c = d) xs) [0..<10]))) =
   sum_list (take d (digit_counts g xs))"
  by (simp add: digit_counts_def length_concat take_map comp_def del: upt_Suc)

lemma scatter_result:
  fixes g :: "'a \<Rightarrow> nat"
  assumes g: "\<And>c. g c < 10" and len: "length out0 = length xs"
  shows "fst (fold (scatter_step g) xs
            (out0, map (\<lambda>d. sum_list (take d (digit_counts g xs))) [0..<10])) =
         stable_by_digit g xs"
proof -
  have "xs = xs @ []" by simp
  from scatter_invariant [where g = g and xs = xs and p = xs and rest = "[]" and ?out0.0 = out0,
      OF g this len]
  obtain out where
    fold: "fold (scatter_step g) xs
            (out0, map (\<lambda>d. sum_list (take d (digit_counts g xs))) [0..<10]) =
           (out, map (\<lambda>d. sum_list (take d (digit_counts g xs)) +
                          length (filter (\<lambda>c. g c = d) xs)) [0..<10])"
    and lout: "length out = length xs"
    and nth: "\<forall>d<10. \<forall>j<length (filter (\<lambda>c. g c = d) xs).
               out ! (sum_list (take d (digit_counts g xs)) + j) = filter (\<lambda>c. g c = d) xs ! j"
    by auto
  have "out = concat (map (\<lambda>d. filter (\<lambda>c. g c = d) xs) [0..<10])"
  proof (rule concat_eq_by_nth)
    show "length out = length (concat (map (\<lambda>d. filter (\<lambda>c. g c = d) xs) [0..<10]))"
      using length_stable_by_digit [OF g, where xs = xs] lout
      by (simp only: stable_by_digit_def)
    fix d j
    assume d: "d < length (map (\<lambda>d. filter (\<lambda>c. g c = d) xs) [0..<10])"
      and j: "j < length (map (\<lambda>d. filter (\<lambda>c. g c = d) xs) [0..<10] ! d)"
    from d have d': "d < 10" by simp
    with j have j': "j < length (filter (\<lambda>c. g c = d) xs)" by (simp del: upt_Suc)
    show "out ! (length (concat (take d (map (\<lambda>d. filter (\<lambda>c. g c = d) xs) [0..<10]))) + j) =
          map (\<lambda>d. filter (\<lambda>c. g c = d) xs) [0..<10] ! d ! j"
      using nth d' j' by (simp add: length_concat_take_segments del: upt_Suc)
  qed
  then show ?thesis by (simp add: fold stable_by_digit_def)
qed

lemma radix_digit_less: "radix_digit cf r c < 10"
  by (simp add: radix_digit_def)

lemma sort_radix_stable:
  assumes "length in_array = 256" and "length out_array = 256"
  shows "sort_radix cf r in_array out_array = stable_by_digit (radix_digit cf r) in_array"
proof -
  let ?g = "radix_digit cf r"
  have sc: "fold (\<lambda>i sc. sc[?g (in_array ! i) := sc ! ?g (in_array ! i) + 1]) [0..<256]
              (replicate 10 (0::nat)) = digit_counts ?g in_array"
  proof -
    have "fold (\<lambda>i. (\<lambda>c sc. sc[?g c := sc ! ?g c + 1]) (in_array ! i)) [0..<length in_array]
            (replicate 10 (0::nat)) =
          fold (\<lambda>c sc. sc[?g c := sc ! ?g c + 1]) in_array (replicate 10 (0::nat))"
      by (rule fold_nth_upt)
    then show ?thesis
      using symbol_count_fold [of ?g in_array] assms(1)
      by (simp add: radix_digit_less digit_counts_def)
  qed
  have off: "fold (\<lambda>i off. off[i := off ! (i - 1) + digit_counts ?g in_array ! (i - 1)]) [1..<10]
               (replicate 10 (0::nat)) =
             map (\<lambda>d. sum_list (take d (digit_counts ?g in_array))) [0..<10]"
    by (rule offsets_fold) simp
  have scat: "fold (\<lambda>i (out, off).
                 (out[off ! ?g (in_array ! i) := in_array ! i],
                  off[?g (in_array ! i) := off ! ?g (in_array ! i) + 1]))
               [0..<256] st = fold (scatter_step ?g) in_array st" for st
  proof -
    have "fold (\<lambda>i. scatter_step ?g (in_array ! i)) [0..<length in_array] st =
          fold (scatter_step ?g) in_array st"
      by (rule fold_nth_upt)
    then show ?thesis using assms(1) by (simp add: scatter_step_def Let_def)
  qed
  show ?thesis
    unfolding sort_radix_def Let_def sc off scat
    using assms by (intro scatter_result) (simp_all add: radix_digit_less)
qed


section \<open>The leaf sequence of \<open>sort_chars\<close>\<close>

text \<open>The 256 byte values in ascending order: the initial content of \<open>sorting_arrays[0]\<close>.\<close>

definition all_bytes :: "byte list" where
  "all_bytes = map of_nat [0..<256]"

lemma unat_of_nat_byte: "i < 256 \<Longrightarrow> unat (of_nat i :: byte) = i"
  by (simp add: unat_of_nat)

lemma length_all_bytes [simp]: "length all_bytes = 256"
  by (simp add: all_bytes_def)

lemma nth_all_bytes: "i < 256 \<Longrightarrow> all_bytes ! i = of_nat i"
  by (simp add: all_bytes_def del: upt_Suc)

lemma set_all_bytes [simp]: "set all_bytes = UNIV"
proof -
  have "c \<in> set all_bytes" for c :: byte
  proof -
    have "unat c < 256" using unsigned_less [of c, where 'a = nat] by simp
    then have "all_bytes ! unat c = c" by (simp add: nth_all_bytes)
    moreover have "unat c < length all_bytes" using \<open>unat c < 256\<close> by simp
    ultimately show ?thesis by (metis nth_mem)
  qed
  then show ?thesis by auto
qed

lemma sorted_all_bytes: "sorted all_bytes"
  unfolding sorted_iff_nth_mono
  by (auto simp: nth_all_bytes word_le_nat_alt unat_of_nat_byte)

lemma distinct_all_bytes: "distinct all_bytes"
  unfolding distinct_conv_nth
proof (intro allI impI)
  fix i j assume "i < length all_bytes" "j < length all_bytes" "i \<noteq> j"
  then have "unat (all_bytes ! i) \<noteq> unat (all_bytes ! j)"
    by (simp add: nth_all_bytes unat_of_nat_byte)
  then show "all_bytes ! i \<noteq> all_bytes ! j" by auto
qed

lemma filter_all_bytes:
  assumes "sorted S" "distinct S" "set S = {c. P c}"
  shows "filter P all_bytes = S"
proof (rule sorted_distinct_set_unique)
  show "sorted (filter P all_bytes)" using sorted_all_bytes by (rule sorted_wrt_filter)
  show "distinct (filter P all_bytes)" by (simp add: distinct_all_bytes)
  show "set (filter P all_bytes) = set S" using assms(3) by auto
qed (use assms in simp_all)

lemma filter_stable_by_digit:
  "filter P (stable_by_digit g xs) = stable_by_digit g (filter P xs)"
proof -
  have "filter P (filter (\<lambda>c. g c = d) xs) = filter (\<lambda>c. g c = d) (filter P xs)" for d
    by (simp add: conj_commute)
  then show ?thesis
    by (simp add: stable_by_digit_def filter_concat comp_def del: upt_Suc)
qed

lemma set_distinct_segments:
  "set (concat (map (\<lambda>d. filter (\<lambda>c. g c = d) xs) [0..<n])) = {c \<in> set xs. g c < n}
   \<and> (distinct xs \<longrightarrow> distinct (concat (map (\<lambda>d. filter (\<lambda>c. g c = d) xs) [0..<n])))"
proof (induction n)
  case 0
  show ?case by simp
next
  case (Suc n)
  then show ?case by (auto simp: less_Suc_eq)
qed

lemma set_stable_by_digit:
  assumes "\<And>c. g c < 10"
  shows "set (stable_by_digit g xs) = set xs"
  using set_distinct_segments [of g xs 10] assms by (simp add: stable_by_digit_def)

lemma distinct_stable_by_digit:
  "distinct xs \<Longrightarrow> distinct (stable_by_digit g xs)"
  using set_distinct_segments [of g xs 10] by (simp add: stable_by_digit_def)

text \<open>The first \<open>k\<close> passes, least significant digit first.\<close>

definition radix_sorted :: "(byte \<Rightarrow> u32) \<Rightarrow> nat \<Rightarrow> byte list \<Rightarrow> byte list" where
  "radix_sorted cf k xs = fold (\<lambda>i. stable_by_digit (radix_digit cf i)) [0..<k] xs"

lemma radix_sorted_Suc:
  "radix_sorted cf (Suc k) xs = stable_by_digit (radix_digit cf k) (radix_sorted cf k xs)"
  by (simp add: radix_sorted_def)

lemma radix_sorted_0 [simp]: "radix_sorted cf 0 xs = xs"
  by (simp add: radix_sorted_def)

lemma length_radix_sorted [simp]: "length (radix_sorted cf k xs) = length xs"
  by (induction k) (simp_all add: radix_sorted_Suc length_stable_by_digit radix_digit_less)

lemma set_radix_sorted [simp]: "set (radix_sorted cf k xs) = set xs"
  by (induction k) (simp_all add: radix_sorted_Suc set_stable_by_digit radix_digit_less)

lemma distinct_radix_sorted: "distinct xs \<Longrightarrow> distinct (radix_sorted cf k xs)"
  by (induction k) (simp_all add: radix_sorted_Suc distinct_stable_by_digit)

lemma filter_radix_sorted:
  "filter P (radix_sorted cf k xs) = radix_sorted cf k (filter P xs)"
  by (induction k) (simp_all add: radix_sorted_Suc filter_stable_by_digit)

lemma sort_passes_radix_sorted:
  "fst (sort_passes cf k) = radix_sorted cf k all_bytes \<and> length (snd (sort_passes cf k)) = 256"
proof (induction k)
  case 0
  show ?case by (simp add: sort_passes_def all_bytes_def)
next
  case (Suc k)
  obtain a b where ab: "sort_passes cf k = (a, b)" by (cases "sort_passes cf k")
  with Suc have a: "a = radix_sorted cf k all_bytes" and b: "length b = 256" by simp_all
  have "sort_passes cf (Suc k) = (sort_radix cf k a b, a)"
    using ab by (simp add: sort_passes_def)
  then show ?case
    using a b by (simp add: sort_radix_stable radix_sorted_Suc)
qed

lemma sorted_leaf_nodes_sort_chars:
  "sorted_leaf_nodes (sort_chars cd) =
     map (\<lambda>c. Leaf c (char_frequency cd c))
       (radix_sorted (char_frequency cd) (ceil_log10 (unat (max_freq cd)))
          (filter (\<lambda>c. char_frequency cd c > 0) all_bytes)) @ [Leaf 0 LAST_NODE]"
  by (simp add: sort_chars_def Let_def sort_passes_radix_sorted filter_radix_sorted)


lemma stable_by_digit_buckets:
  "stable_by_digit g xs =
     filter (\<lambda>c. g c = 0) xs @ filter (\<lambda>c. g c = 1) xs @ filter (\<lambda>c. g c = 2) xs @
     filter (\<lambda>c. g c = 3) xs @ filter (\<lambda>c. g c = 4) xs @ filter (\<lambda>c. g c = 5) xs @
     filter (\<lambda>c. g c = 6) xs @ filter (\<lambda>c. g c = 7) xs @ filter (\<lambda>c. g c = 8) xs @
     filter (\<lambda>c. g c = 9) xs"
proof -
  have "[0..<10] = [0, 1, 2, 3, 4, 5, 6, 7, 8, 9 :: nat]"
    by (simp add: upt_conv_Cons)
  then show ?thesis by (simp add: stable_by_digit_def)
qed

lemma sort_chars_leaves:
  assumes "char_frequency cd = cf" and "max_freq cd = m"
    and "sorted S" and "distinct S" and "set S = {c. cf c \<noteq> 0}"
  shows "sorted_leaf_nodes (sort_chars cd) =
           map (\<lambda>c. Leaf c (cf c)) (radix_sorted cf (ceil_log10 (unat m)) S) @ [Leaf 0 LAST_NODE]"
proof -
  have "filter (\<lambda>c. cf c > 0) all_bytes = S"
    using assms(3-5) by (intro filter_all_bytes) (simp_all add: word_greater_zero_iff)
  then show ?thesis
    by (simp add: sorted_leaf_nodes_sort_chars assms(1,2))
qed


lemma ceil_log10_ten: "ceil_log10 (unat (10::u32)) = Suc 0"
  by (simp add: ceil_log10.simps)



lemma count_step_after_block:
  fixes w :: u32
  assumes "w \<le> w + 1"
  shows "count_step (cd\<lparr>char_frequency := (char_frequency cd)(c := w), max_freq := max m w\<rparr>) c =
         cd\<lparr>char_frequency := (char_frequency cd)(c := w + 1), max_freq := max m (w + 1)\<rparr>"
proof -
  have "max m w = max m (w + 1)" if "\<not> (m < w + 1 \<and> w < w + 1)"
    using assms that by (auto simp: max_def not_less)
  moreover have "w + 1 = max m (w + 1)" if "m < w + 1 \<and> w < w + 1"
    using that by (auto simp: max_def)
  ultimately show ?thesis by (simp add: count_step_def Let_def)
qed

lemma count_step_first:
  fixes m :: u32
  shows "count_step cd c =
         cd\<lparr>char_frequency := (char_frequency cd)(c := char_frequency cd c + 1),
            max_freq := max (max_freq cd) (char_frequency cd c + 1)\<rparr>"
proof -
  have "(if max_freq cd < char_frequency cd c + 1 then char_frequency cd c + 1 else max_freq cd)
        = max (max_freq cd) (char_frequency cd c + 1)"
    by (auto simp: max_def not_less)
  then show ?thesis by (simp add: count_step_def Let_def)
qed

lemma foldl_count_step_replicate:
  assumes "unat (char_frequency cd c) + n < 2 ^ 32"
  shows "foldl count_step cd (replicate n c) =
     (if n = 0 then cd
      else cd\<lparr>char_frequency := (char_frequency cd)(c := char_frequency cd c + of_nat n),
              max_freq := max (max_freq cd) (char_frequency cd c + of_nat n)\<rparr>)"
  using assms
proof (induction n)
  case 0
  show ?case by simp
next
  case (Suc n)
  define w where "w = char_frequency cd c + of_nat n"
  have rep: "replicate (Suc n) c = replicate n c @ [c]"
    by (simp add: replicate_append_same)
  have w1: "w + 1 = char_frequency cd c + of_nat (Suc n)"
    by (simp add: w_def)
  have le: "w \<le> w + 1"
  proof -
    have "unat w = unat (char_frequency cd c) + n"
      using Suc.prems by (simp add: w_def unat_word_ariths unat_of_nat)
    then have "unat w + 1 < 2 ^ 32"
      using Suc.prems by simp
    then show ?thesis
      by (simp add: word_le_nat_alt unat_word_ariths)
  qed
  show ?case
  proof (cases "n = 0")
    case True
    then show ?thesis using count_step_first [of cd c] by simp
  next
    case False
    have "foldl count_step cd (replicate n c) =
        cd\<lparr>char_frequency := (char_frequency cd)(c := w), max_freq := max (max_freq cd) w\<rparr>"
      using Suc False by (simp add: w_def)
    then have "foldl count_step cd (replicate (Suc n) c) =
        cd\<lparr>char_frequency := (char_frequency cd)(c := w + 1), max_freq := max (max_freq cd) (w + 1)\<rparr>"
      unfolding rep foldl_append using count_step_after_block [OF le, where cd = cd and c = c and m = "max_freq cd"]
      by simp
    then show ?thesis unfolding w1 by simp
  qed
qed

section \<open>The radix sorter when \<open>max_freq\<close> is a power of ten\<close>

lemma count_chars_ten_a_one_b:
  "count_chars (replicate 10 0x61 @ [0x62]) (new_codec g) =
   (new_codec g)\<lparr>char_frequency := (\<lambda>_. 0)(0x61 := 10, 0x62 := 1), max_freq := 10\<rparr>"
  by (simp add: count_chars_def foldl_count_step_replicate count_step_first new_codec_def
      del: replicate.simps replicate_Suc)

text \<open>
  C4 at the input \<open>aaaaaaaaaab\<close> (ten times \<open>0x61\<close>, once \<open>0x62\<close>): \<open>max_freq\<close> is 10, so
  \<open>ceil(log10(max_freq))\<close> is 1 and the sorter makes one pass, on the units digit only. The
  units digit of 10 is 0, and the leaf sequence is \<open>a\<close> (count 10), \<open>b\<close> (count 1), sentinel:
  the byte values with nonzero frequency, but not in ascending order of frequency.
\<close>

theorem sort_chars_ten_a_one_b:
  "sorted_leaf_nodes (sort_chars (count_chars (replicate 10 0x61 @ [0x62]) (new_codec g)))
   = [Leaf 0x61 10, Leaf 0x62 1, Leaf 0 LAST_NODE]"
proof -
  let ?cf = "(\<lambda>_. 0)(0x61 := 10, 0x62 := 1 :: u32)"
  have "sorted_leaf_nodes (sort_chars (count_chars (replicate 10 0x61 @ [0x62]) (new_codec g)))
     = map (\<lambda>c. Leaf c (?cf c)) (radix_sorted ?cf (ceil_log10 (unat (10::u32))) [0x61, 0x62])
        @ [Leaf 0 LAST_NODE]"
    unfolding count_chars_ten_a_one_b by (rule sort_chars_leaves) (auto split: if_splits)
  also have "ceil_log10 (unat (10::u32)) = Suc 0"
    by (simp add: ceil_log10.simps)
  also have "radix_sorted ?cf (Suc 0) [0x61, 0x62] = [0x61, 0x62]"
    by (simp add: radix_sorted_Suc stable_by_digit_buckets radix_digit_def)
  finally show ?thesis by simp
qed

section \<open>The bit unpacker reads the bits at the cursor\<close>

text \<open>
  The buffer as a sequence of bits, the most significant bit of each byte first: bit \<open>k\<close> of
  the buffer is bit \<open>7 - k mod 8\<close> of byte \<open>k div 8\<close>. A cursor stands at bit
  \<open>8 * bytePtr + curBit\<close>. \<open>bits_value buf pos n\<close> is the number whose binary digits are
  the \<open>n\<close> bits from position \<open>pos\<close> on.
\<close>

definition bit_at :: "byte list \<Rightarrow> nat \<Rightarrow> bool" where
  "bit_at buf k = bit (buf ! (k div 8)) (7 - k mod 8)"

definition cursor_pos :: "bit_cursor \<Rightarrow> nat" where
  "cursor_pos cur = 8 * bytePtr cur + curBit cur"

fun bits_value :: "byte list \<Rightarrow> nat \<Rightarrow> nat \<Rightarrow> u32" where
  "bits_value buf pos 0 = 0"
| "bits_value buf pos (Suc n) = push_bit 1 (bits_value buf pos n) OR of_bool (bit_at buf (pos + n))"

lemma bit_bits_value:
  "bit (bits_value buf pos n) m \<longleftrightarrow> m < n \<and> m < 32 \<and> bit_at buf (pos + n - 1 - m)"
proof (induction n arbitrary: m)
  case 0
  show ?case by simp
next
  case (Suc n)
  show ?case
  proof (cases m)
    case 0
    then show ?thesis by (simp add: bit_0 even_or_iff)
  next
    case (Suc m')
    have ob: "bit (of_bool (bit_at buf (pos + n)) :: u32) (Suc m') = False"
      by (simp add: bit_of_bool_iff)
    have sh: "bit (push_bit 1 X :: u32) (Suc m') \<longleftrightarrow> Suc m' < 32 \<and> bit X m'" for X
      unfolding bit_push_bit_iff by (auto simp: possible_bit_word)
    have "bit (bits_value buf pos (Suc n)) (Suc m') \<longleftrightarrow>
            Suc m' < 32 \<and> bit (bits_value buf pos n) m'"
      unfolding bits_value.simps bit_or_iff sh ob by simp
    also have "\<dots> \<longleftrightarrow> Suc m' < Suc n \<and> Suc m' < 32 \<and> bit_at buf (pos + Suc n - 1 - Suc m')"
      unfolding Suc.IH [of m'] by auto
    finally show ?thesis unfolding \<open>m = Suc m'\<close> .
  qed
qed

lemma get_bits_value:
  assumes "curBit cur + n \<le> 8"
  shows "(ucast (get_bits buf cur n) :: u32) = bits_value buf (cursor_pos cur) n"
proof (rule bit_word_eqI)
  fix m assume "m < LENGTH(32)"
  have pos: "(8 * bytePtr cur + curBit cur + n - 1 - m) div 8 = bytePtr cur"
       "7 - (8 * bytePtr cur + curBit cur + n - 1 - m) mod 8 = 8 - curBit cur - n + m" if "m < n"
  proof -
    define r where "r = curBit cur + n - 1 - m"
    have e: "8 * bytePtr cur + curBit cur + n - 1 - m = 8 * bytePtr cur + r"
      using that by (simp add: r_def)
    have l: "r < 8" using that assms by (simp add: r_def)
    have r: "7 - r = 8 - curBit cur - n + m" using that assms by (simp add: r_def)
    show "(8 * bytePtr cur + curBit cur + n - 1 - m) div 8 = bytePtr cur"
      unfolding e using l by simp
    show "7 - (8 * bytePtr cur + curBit cur + n - 1 - m) mod 8 = 8 - curBit cur - n + m"
      unfolding e using l r by simp
  qed
  show "bit (ucast (get_bits buf cur n) :: u32) m = bit (bits_value buf (cursor_pos cur) n) m"
    using assms pos
    by (auto simp: get_bits_def Let_def bit_bits_value cursor_pos_def bit_at_def bit_ucast_iff
        bit_and_iff bit_drop_bit_eq bit_push_bit_iff mask_eq_exp_minus_1 [symmetric] bit_mask_iff
        possible_bit_word dest: bit_imp_le_length)
qed


lemma bits_value_add:
  "bits_value buf pos (a + b) = push_bit b (bits_value buf pos a) OR bits_value buf (pos + a) b"
proof (rule bit_word_eqI)
  fix m assume "m < LENGTH(32)"
  then have m: "m < 32" by simp
  have eq: "pos + a + b - 1 - m = pos + a - 1 - (m - b)" if "b \<le> m" "m < a + b"
    using that by simp
  show "bit (bits_value buf pos (a + b)) m =
        bit (push_bit b (bits_value buf pos a) OR bits_value buf (pos + a) b) m"
    using m eq
    by (cases "m < b") (auto simp: bit_bits_value bit_or_iff bit_push_bit_iff possible_bit_word
        add.assoc)
qed

lemma bitRead_loop_spec:
  assumes "curBit cur < 8" and "cursor_pos cur + bits \<le> 8 * length buf"
  shows "\<exists>cur'. bitRead_loop bits d buf cur =
            Inr (push_bit bits d OR bits_value buf (cursor_pos cur) bits, cur')
          \<and> cursor_pos cur' = cursor_pos cur + bits \<and> curBit cur' < 8"
  using assms
proof (induction bits arbitrary: d cur rule: less_induct)
  case (less bits)
  show ?case
  proof (cases "bits = 0")
    case True
    then show ?thesis using less.prems by simp
  next
    case False
    define L where "L = 8 - curBit cur"
    have L: "0 < L" "L \<le> 8" "curBit cur + L = 8" using less.prems by (simp_all add: L_def)
    have ptr: "bytePtr cur < length buf"
      using less.prems False by (simp add: cursor_pos_def)
    show ?thesis
    proof (cases "bits < L")
      case True
      let ?cur' = "cur\<lparr>curBit := curBit cur + bits\<rparr>"
      have "bitRead_loop bits d buf cur =
            Inr (push_bit bits d OR ucast (get_bits buf cur bits), ?cur')"
        using True False ptr by (subst bitRead_loop.simps) (simp add: L_def Let_def)
      moreover have "(ucast (get_bits buf cur bits) :: u32) = bits_value buf (cursor_pos cur) bits"
        using True L by (intro get_bits_value) simp
      moreover have "cursor_pos ?cur' = cursor_pos cur + bits" "curBit ?cur' < 8"
        using True L by (simp_all add: cursor_pos_def)
      ultimately show ?thesis by (intro exI [of _ ?cur']) simp
    next
      case False
      then have ge: "L \<le> bits" by simp
      let ?cur1 = "cur\<lparr>bytePtr := bytePtr cur + 1, curBit := 0\<rparr>"
      let ?d1 = "push_bit L d OR ucast (get_bits buf cur L)"
      have unfold: "bitRead_loop bits d buf cur = bitRead_loop (bits - L) ?d1 buf ?cur1"
        using False \<open>bits \<noteq> 0\<close> ptr by (subst bitRead_loop.simps) (simp add: L_def Let_def)
      have chunk: "(ucast (get_bits buf cur L) :: u32) = bits_value buf (cursor_pos cur) L"
        using L by (intro get_bits_value) simp
      have pos1: "cursor_pos ?cur1 = cursor_pos cur + L"
        using L by (simp add: cursor_pos_def)
      have "\<exists>cur'. bitRead_loop (bits - L) ?d1 buf ?cur1 =
            Inr (push_bit (bits - L) ?d1 OR bits_value buf (cursor_pos ?cur1) (bits - L), cur')
          \<and> cursor_pos cur' = cursor_pos ?cur1 + (bits - L) \<and> curBit cur' < 8"
        using less.prems L ge pos1 by (intro less.IH) simp_all
      then obtain cur' where
        r: "bitRead_loop (bits - L) ?d1 buf ?cur1 =
            Inr (push_bit (bits - L) ?d1 OR bits_value buf (cursor_pos ?cur1) (bits - L), cur')"
        and p: "cursor_pos cur' = cursor_pos ?cur1 + (bits - L)" "curBit cur' < 8"
        by blast
      have "push_bit (bits - L) ?d1 OR bits_value buf (cursor_pos ?cur1) (bits - L)
          = push_bit bits d OR bits_value buf (cursor_pos cur) bits"
      proof -
        have "bits_value buf (cursor_pos cur) bits = bits_value buf (cursor_pos cur) (L + (bits - L))"
          using ge by simp
        also have "\<dots> = push_bit (bits - L) (bits_value buf (cursor_pos cur) L)
                          OR bits_value buf (cursor_pos cur + L) (bits - L)"
          by (rule bits_value_add)
        finally have v: "bits_value buf (cursor_pos cur) bits =
            push_bit (bits - L) (bits_value buf (cursor_pos cur) L)
              OR bits_value buf (cursor_pos cur + L) (bits - L)" .
        have "push_bit (bits - L) (push_bit L d) = push_bit bits d"
          using ge by (simp add: push_bit_push_bit)
        then show ?thesis
          unfolding chunk pos1 v by (simp add: push_bit_or or.assoc)
      qed
      then show ?thesis
        using unfold r p pos1 ge by (intro exI [of _ cur']) simp
    qed
  qed
qed

lemma bitRead_spec:
  assumes "curBit cur < 8" and "cursor_pos cur + bits \<le> 8 * length buf"
  shows "\<exists>cur'. bitRead bits buf cur = Inr (bits_value buf (cursor_pos cur) bits, cur')
          \<and> cursor_pos cur' = cursor_pos cur + bits \<and> curBit cur' < 8"
  using bitRead_loop_spec [OF assms, of 0] by (simp add: bitRead_def)


section \<open>The bit packer writes the bits at the cursor\<close>

lemma bit_at_update:
  "p < length buf \<Longrightarrow>
   bit_at (buf[p := x]) k = (if k div 8 = p then bit x (7 - k mod 8) else bit_at buf k)"
  by (simp add: bit_at_def)

lemma bit_at_in_byte:
  "r < 8 \<Longrightarrow> bit_at buf (8 * p + r) = bit (buf ! p) (7 - r)"
  by (simp add: bit_at_def)

lemma write_mask: "k < 32 \<Longrightarrow> bit (val AND (push_bit k 1 - 1) :: u32) m \<longleftrightarrow> bit val m \<and> m < k"
proof -
  have "push_bit k (1::u32) - 1 = mask k"
    by (simp add: mask_eq_exp_minus_1)
  then show ?thesis by (auto simp: bit_and_iff bit_mask_iff dest: bit_imp_le_length)
qed


lemma bitWrite_0 [simp]: "bitWrite 0 val buf cur = Inr (buf, cur)"
  by (simp add: bitWrite.simps)

lemma bitWrite_small:
  assumes cb: "curBit cur < 8" and small: "bits < 8 - curBit cur" and pos: "0 < bits"
    and upper: "\<forall>m. bits \<le> m \<longrightarrow> \<not> bit val m"
    and ptr: "bytePtr cur < length buf"
    and zero: "\<forall>k. cursor_pos cur \<le> k \<and> k < 8 * length buf \<longrightarrow> \<not> bit_at buf k"
  shows "\<exists>buf'. bitWrite bits val buf cur = Inr (buf', cur\<lparr>curBit := curBit cur + bits\<rparr>)
      \<and> length buf' = length buf
      \<and> (\<forall>j<bits. bit_at buf' (cursor_pos cur + j) = bit val (bits - 1 - j))
      \<and> (\<forall>k. cursor_pos cur + bits \<le> k \<and> k < 8 * length buf \<longrightarrow> \<not> bit_at buf' k)
      \<and> (\<forall>k<cursor_pos cur. bit_at buf' k = bit_at buf k)"
proof -
  define L where "L = 8 - curBit cur"
  define s where "s = L - bits"
  define x where "x = (buf ! bytePtr cur OR ucast (push_bit s val) :: byte)"
  define buf' where "buf' = buf[bytePtr cur := x]"
  have L: "curBit cur + L = 8" "bits < L" "s + bits = L" using cb small by (simp_all add: L_def s_def)
  have run: "bitWrite bits val buf cur = Inr (buf', cur\<lparr>curBit := curBit cur + bits\<rparr>)"
    using pos small ptr cb
    by (subst bitWrite.simps) (simp add: Let_def buf'_def x_def s_def L_def)
  have xbit: "bit x m \<longleftrightarrow> bit (buf ! bytePtr cur) m \<or> (s \<le> m \<and> m < 8 \<and> bit val (m - s))" for m
    by (auto simp: x_def bit_or_iff bit_ucast_iff bit_push_bit_iff possible_bit_word
        dest: bit_imp_le_length)
  have inbyte: "bit_at buf' (8 * bytePtr cur + r) = bit x (7 - r)" if "r < 8" for r
    using that ptr by (simp add: buf'_def bit_at_update)
  have other: "bit_at buf' k = bit_at buf k" if "k div 8 \<noteq> bytePtr cur" for k
    using that ptr by (simp add: buf'_def bit_at_update)
  have a: "bit_at buf' (cursor_pos cur + j) = bit val (bits - 1 - j)" if j: "j < bits" for j
  proof -
    have r: "curBit cur + j < 8" using j L by simp
    have z: "\<not> bit_at buf (8 * bytePtr cur + (curBit cur + j))"
      using zero ptr r by (simp add: cursor_pos_def)
    have "bit_at buf' (8 * bytePtr cur + (curBit cur + j)) = bit x (7 - (curBit cur + j))"
      using r by (rule inbyte)
    also have "\<dots> \<longleftrightarrow> bit val (7 - (curBit cur + j) - s)"
    proof -
      have "s \<le> 7 - (curBit cur + j)" "7 - (curBit cur + j) < 8" using L j by arith+
      then show ?thesis using z r unfolding xbit by (simp add: bit_at_in_byte)
    qed
    also have "7 - (curBit cur + j) - s = bits - 1 - j" using L j by simp
    finally show ?thesis by (simp add: cursor_pos_def add.assoc)
  qed
  have b: "\<not> bit_at buf' k" if k: "cursor_pos cur + bits \<le> k" "k < 8 * length buf" for k
  proof (cases "k div 8 = bytePtr cur")
    case True
    then have "k = 8 * bytePtr cur + k mod 8" "k mod 8 < 8"
      using div_mult_mod_eq [of k 8] by simp_all
    then obtain r where r: "k = 8 * bytePtr cur + r" "r < 8" by blast
    have z: "\<not> bit_at buf k" using zero k by simp
    have "curBit cur + bits \<le> r" using k r by (simp add: cursor_pos_def)
    then have "7 - r < s" using L r by simp
    then show ?thesis using z r unfolding r(1) inbyte [OF r(2)] xbit
      by (simp add: bit_at_in_byte)
  next
    case False
    then show ?thesis using zero k by (simp add: other)
  qed
  have d: "bit_at buf' k = bit_at buf k" if k: "k < cursor_pos cur" for k
  proof (cases "k div 8 = bytePtr cur")
    case True
    then have "k = 8 * bytePtr cur + k mod 8" "k mod 8 < 8"
      using div_mult_mod_eq [of k 8] by simp_all
    then obtain r where r: "k = 8 * bytePtr cur + r" "r < 8" by blast
    have "r < curBit cur" using k r by (simp add: cursor_pos_def)
    then have "bits \<le> 7 - r - s" using L r by simp
    then have "\<not> bit val (7 - r - s)" using upper by simp
    then show ?thesis using r unfolding r(1) inbyte [OF r(2)] xbit
      by (simp add: bit_at_in_byte)
  next
    case False
    then show ?thesis by (simp add: other)
  qed
  show ?thesis
    using run a b d by (intro exI [of _ buf']) (simp add: buf'_def)
qed


lemma bitWrite_spec:
  assumes "curBit cur < 8" and "bits \<le> 32"
    and "\<forall>m. bits \<le> m \<longrightarrow> \<not> bit val m"
    and "cursor_pos cur + bits \<le> 8 * length buf"
    and "\<forall>k. cursor_pos cur \<le> k \<and> k < 8 * length buf \<longrightarrow> \<not> bit_at buf k"
  shows "\<exists>buf' cur'. bitWrite bits val buf cur = Inr (buf', cur')
      \<and> length buf' = length buf
      \<and> cursor_pos cur' = cursor_pos cur + bits \<and> curBit cur' < 8
      \<and> (\<forall>j<bits. bit_at buf' (cursor_pos cur + j) = bit val (bits - 1 - j))
      \<and> (\<forall>k. cursor_pos cur + bits \<le> k \<and> k < 8 * length buf \<longrightarrow> \<not> bit_at buf' k)
      \<and> (\<forall>k<8 * bytePtr cur. bit_at buf' k = bit_at buf k)
      \<and> (\<not> bit val 31 \<longrightarrow> (\<forall>k<cursor_pos cur. bit_at buf' k = bit_at buf k))"
  using assms
proof (induction bits arbitrary: val buf cur rule: less_induct)
  case (less bits)
  note cb = less.prems(1) and b32 = less.prems(2) and upper = less.prems(3)
    and fits = less.prems(4) and zero = less.prems(5)
  show ?case
  proof (cases "bits = 0")
    case True
    then show ?thesis using cb zero by simp
  next
    case False
    then have pos: "0 < bits" by simp
    have ptr: "bytePtr cur < length buf"
      using fits pos by (simp add: cursor_pos_def)
    define L where "L = 8 - curBit cur"
    have L: "curBit cur + L = 8" "0 < L" using cb by (simp_all add: L_def)
    show ?thesis
    proof (cases "bits < L")
      case True
      from bitWrite_small [OF cb True [unfolded L_def] pos upper ptr zero]
      obtain buf' where
        run: "bitWrite bits val buf cur = Inr (buf', cur\<lparr>curBit := curBit cur + bits\<rparr>)"
        and len: "length buf' = length buf"
        and a: "\<forall>j<bits. bit_at buf' (cursor_pos cur + j) = bit val (bits - 1 - j)"
        and b: "\<forall>k. cursor_pos cur + bits \<le> k \<and> k < 8 * length buf \<longrightarrow> \<not> bit_at buf' k"
        and d: "\<forall>k<cursor_pos cur. bit_at buf' k = bit_at buf k"
        by blast
      have c: "\<forall>k<8 * bytePtr cur. bit_at buf' k = bit_at buf k"
        using d by (simp add: cursor_pos_def)
      have p: "cursor_pos (cur\<lparr>curBit := curBit cur + bits\<rparr>) = cursor_pos cur + bits"
        "curBit (cur\<lparr>curBit := curBit cur + bits\<rparr>) < 8"
        using True L by (simp_all add: cursor_pos_def)
      show ?thesis
        using run len a b c d p
        by (intro exI [of _ buf'] exI [of _ "cur\<lparr>curBit := curBit cur + bits\<rparr>"]) blast
    next
      case False
      then have ge: "L \<le> bits" by simp
      define k0 where "k0 = bits - L"
      have k0: "k0 < 32" "k0 < bits" "k0 + L = bits" using ge L b32 by (simp_all add: k0_def)
      define x where "x = (buf ! bytePtr cur OR ucast (signed_drop_bit k0 val) :: byte)"
      define buf1 where "buf1 = buf[bytePtr cur := x]"
      define val1 where "val1 = val AND (push_bit k0 1 - 1)"
      define cur1 where "cur1 = cur\<lparr>curBit := 0, bytePtr := bytePtr cur + 1\<rparr>"
      have unfold: "bitWrite bits val buf cur = bitWrite k0 val1 buf1 cur1"
        using pos False ptr k0
        by (subst bitWrite.simps)
          (simp add: Let_def L_def [symmetric] k0_def [symmetric] x_def buf1_def val1_def cur1_def)
      have pos1: "cursor_pos cur1 = cursor_pos cur + L" "bytePtr cur1 = bytePtr cur + 1"
        "curBit cur1 = 0"
        using L by (simp_all add: cursor_pos_def cur1_def)
      have len1: "length buf1 = length buf" by (simp add: buf1_def)
      have xbit: "bit x m \<longleftrightarrow> bit (buf ! bytePtr cur) m \<or>
            (m < 8 \<and> bit val (if 32 - k0 \<le> m \<and> m < 32 then 31 else k0 + m))" for m
        by (auto simp: x_def bit_or_iff bit_ucast_iff bit_signed_drop_bit_iff)
      have inbyte: "bit_at buf1 (8 * bytePtr cur + r) = bit x (7 - r)" if "r < 8" for r
        using that ptr by (simp add: buf1_def bit_at_update)
      have other: "bit_at buf1 k = bit_at buf k" if "k div 8 \<noteq> bytePtr cur" for k
        using that ptr by (simp add: buf1_def bit_at_update)
      have v1: "bit val1 m \<longleftrightarrow> bit val m \<and> m < k0" for m
        unfolding val1_def using k0(1) by (rule write_mask)
      have "\<exists>buf' cur'. bitWrite k0 val1 buf1 cur1 = Inr (buf', cur')
        \<and> length buf' = length buf1
        \<and> cursor_pos cur' = cursor_pos cur1 + k0 \<and> curBit cur' < 8
        \<and> (\<forall>j<k0. bit_at buf' (cursor_pos cur1 + j) = bit val1 (k0 - 1 - j))
        \<and> (\<forall>k. cursor_pos cur1 + k0 \<le> k \<and> k < 8 * length buf1 \<longrightarrow> \<not> bit_at buf' k)
        \<and> (\<forall>k<8 * bytePtr cur1. bit_at buf' k = bit_at buf1 k)
        \<and> (\<not> bit val1 31 \<longrightarrow> (\<forall>k<cursor_pos cur1. bit_at buf' k = bit_at buf1 k))"
      proof (rule less.IH)
        show "k0 < bits" by (rule k0)
        show "curBit cur1 < 8" by (simp add: pos1)
        show "k0 \<le> 32" using k0 by simp
        show "\<forall>m. k0 \<le> m \<longrightarrow> \<not> bit val1 m" by (simp add: v1)
        show "cursor_pos cur1 + k0 \<le> 8 * length buf1"
          using fits k0 by (simp add: pos1 len1 add.assoc add.commute)
        show "\<forall>k. cursor_pos cur1 \<le> k \<and> k < 8 * length buf1 \<longrightarrow> \<not> bit_at buf1 k"
        proof (intro allI impI)
          fix k assume k: "cursor_pos cur1 \<le> k \<and> k < 8 * length buf1"
          then have "8 * (bytePtr cur + 1) \<le> k" using L by (simp add: pos1 cursor_pos_def)
          then have "k div 8 \<noteq> bytePtr cur" by arith
          moreover have "\<not> bit_at buf k" using zero k by (simp add: pos1 len1)
          ultimately show "\<not> bit_at buf1 k" by (simp add: other)
        qed
      qed
      then obtain buf' cur' where
        run: "bitWrite k0 val1 buf1 cur1 = Inr (buf', cur')"
        and len: "length buf' = length buf1"
        and p: "cursor_pos cur' = cursor_pos cur1 + k0" "curBit cur' < 8"
        and a1: "\<forall>j<k0. bit_at buf' (cursor_pos cur1 + j) = bit val1 (k0 - 1 - j)"
        and b1: "\<forall>k. cursor_pos cur1 + k0 \<le> k \<and> k < 8 * length buf1 \<longrightarrow> \<not> bit_at buf' k"
        and c1: "\<forall>k<8 * bytePtr cur1. bit_at buf' k = bit_at buf1 k"
        by blast
      have frame: "bit_at buf' k = bit_at buf1 k" if "k < cursor_pos cur + L" for k
        using c1 that L by (simp add: pos1 cursor_pos_def)
      have a: "bit_at buf' (cursor_pos cur + j) = bit val (bits - 1 - j)" if j: "j < bits" for j
      proof (cases "j < L")
        case True
        have r: "curBit cur + j < 8" using True L by simp
        have z: "\<not> bit (buf ! bytePtr cur) (7 - (curBit cur + j))"
          using zero ptr r bit_at_in_byte [OF r, of buf "bytePtr cur"]
          by (simp add: cursor_pos_def)
        have m: "7 - (curBit cur + j) < 8" "\<not> (32 - k0 \<le> 7 - (curBit cur + j))"
          "k0 + (7 - (curBit cur + j)) = bits - 1 - j"
          using True L k0 b32 by arith+
        have "bit_at buf' (cursor_pos cur + j) = bit_at buf1 (cursor_pos cur + j)"
          using True by (intro frame) simp
        also have "\<dots> = bit x (7 - (curBit cur + j))"
          using inbyte [OF r] by (simp add: cursor_pos_def add.assoc)
        also have "\<dots> = bit val (bits - 1 - j)"
          unfolding xbit using z m by simp
        finally show ?thesis .
      next
        case False
        define j' where "j' = j - L"
        have j': "j = L + j'" "j' < k0" using False j k0 by (simp_all add: j'_def)
        have "bit_at buf' (cursor_pos cur1 + j') = bit val1 (k0 - 1 - j')"
          using a1 j' by simp
        moreover have "k0 - 1 - j' = bits - 1 - j" using j' k0 by simp
        moreover have "k0 - 1 - j' < k0" using j' by simp
        ultimately show ?thesis by (simp add: v1 pos1 j'(1) add.assoc)
      qed
      have b: "\<not> bit_at buf' k" if "cursor_pos cur + bits \<le> k" "k < 8 * length buf" for k
        using b1 that k0 by (simp add: pos1 len1 add.assoc add.commute)
      have c: "bit_at buf' k = bit_at buf k" if k: "k < 8 * bytePtr cur" for k
      proof -
        have "k div 8 \<noteq> bytePtr cur" using k by arith
        then have "bit_at buf1 k = bit_at buf k" by (rule other)
        moreover have "bit_at buf' k = bit_at buf1 k"
          using k by (intro frame) (simp add: cursor_pos_def)
        ultimately show ?thesis by simp
      qed
      have d: "bit_at buf' k = bit_at buf k" if nn: "\<not> bit val 31" and k: "k < cursor_pos cur" for k
      proof (cases "k div 8 = bytePtr cur")
        case True
        then have "k = 8 * bytePtr cur + k mod 8" "k mod 8 < 8"
          using div_mult_mod_eq [of k 8] by simp_all
        then obtain r where r: "k = 8 * bytePtr cur + r" "r < 8" by blast
        have rc: "r < curBit cur" using k r by (simp add: cursor_pos_def)
        have "\<not> bit val (if 32 - k0 \<le> 7 - r \<and> 7 - r < 32 then 31 else k0 + (7 - r))"
        proof (cases "32 - k0 \<le> 7 - r \<and> 7 - r < 32")
          case True
          then show ?thesis using nn by simp
        next
          case False
          have "bits \<le> k0 + (7 - r)" using rc L k0 by arith
          then have nb: "\<not> bit val (k0 + (7 - r))" using upper by blast
          have "(if 32 - k0 \<le> 7 - r \<and> 7 - r < 32 then 31 else k0 + (7 - r)) = k0 + (7 - r)"
            using False by (rule if_not_P)
          then show ?thesis using nb by simp
        qed
        then have "bit x (7 - r) = bit (buf ! bytePtr cur) (7 - r)"
          unfolding xbit by simp
        moreover have "bit_at buf' k = bit_at buf1 k"
          using k by (intro frame) simp
        ultimately show ?thesis
          unfolding r(1) inbyte [OF r(2)] by (simp add: bit_at_in_byte r(2))
      next
        case False
        then have "bit_at buf1 k = bit_at buf k" by (rule other)
        moreover have "bit_at buf' k = bit_at buf1 k"
          using k by (intro frame) simp
        ultimately show ?thesis by simp
      qed
      have p': "cursor_pos cur' = cursor_pos cur + bits"
        using p k0 by (simp add: pos1 add.assoc add.commute)
      show ?thesis
        unfolding unfold using run len len1 p' p(2) a b c d
        by (intro exI [of _ buf'] exI [of _ cur']) simp
    qed
  qed
qed


section \<open>Writing and reading back\<close>

lemma upper_bits_zero:
  assumes "unat (v::u32) < 2 ^ n"
  shows "\<forall>m. n \<le> m \<longrightarrow> \<not> bit v m"
proof (intro allI impI)
  fix m assume "n \<le> m"
  have "take_bit n (unat v) = unat v"
    using assms by (simp add: take_bit_nat_eq_self_iff)
  then have "bit (unat v) m \<longleftrightarrow> m < n \<and> bit (unat v) m"
    by (metis bit_take_bit_iff)
  then have "\<not> bit (unat v) m" using \<open>n \<le> m\<close> by simp
  then show "\<not> bit v m" by (simp add: bit_unsigned_iff)
qed

lemma cursor_eqI:
  assumes "cursor_pos a = cursor_pos b" "curBit a < 8" "curBit b < 8"
  shows "a = (b :: bit_cursor)"
proof -
  have "cursor_pos a div 8 = bytePtr a" "cursor_pos a mod 8 = curBit a"
       "cursor_pos b div 8 = bytePtr b" "cursor_pos b mod 8 = curBit b"
    using assms(2,3) by (simp_all add: cursor_pos_def)
  then have "bytePtr a = bytePtr b" "curBit a = curBit b" using assms(1) by simp_all
  then show ?thesis by simp
qed

lemma bit_at_replicate_zero: "k < 8 * m \<Longrightarrow> \<not> bit_at (replicate m 0) k"
  by (simp add: bit_at_def)

text \<open>
  C6: for a bit count \<open>n \<le> 32\<close>, a value \<open>v < 2 ^ n\<close> and a cursor with bit offset 0 to 7
  in a zeroed buffer of \<open>m\<close> bytes that has room for the \<open>n\<close> bits, \<open>bitWrite\<close> succeeds,
  \<open>bitRead\<close> of \<open>n\<close> bits from the same starting cursor returns \<open>v\<close>, and both leave the
  same cursor, exactly \<open>n\<close> bits further on (for \<open>n = 0\<close> buffer and cursor are unchanged).
  The bits may lie in one byte or cross byte boundaries.
\<close>

theorem bitWrite_bitRead_roundtrip:
  assumes "n \<le> 32" and "unat v < 2 ^ n" and "curBit cur < 8"
    and "8 * bytePtr cur + curBit cur + n \<le> 8 * m"
  shows "\<exists>buf' cur'. bitWrite n v (replicate m 0) cur = Inr (buf', cur')
      \<and> bitRead n buf' cur = Inr (v, cur')
      \<and> 8 * bytePtr cur' + curBit cur' = 8 * bytePtr cur + curBit cur + n
      \<and> curBit cur' < 8
      \<and> (n = 0 \<longrightarrow> buf' = replicate m 0 \<and> cur' = cur)"
proof -
  let ?buf = "replicate m (0::byte)"
  have fits: "cursor_pos cur + n \<le> 8 * length ?buf"
    using assms(4) by (simp add: cursor_pos_def)
  have zero: "\<forall>k. cursor_pos cur \<le> k \<and> k < 8 * length ?buf \<longrightarrow> \<not> bit_at ?buf k"
    by (simp add: bit_at_replicate_zero)
  from bitWrite_spec [OF assms(3) assms(1) upper_bits_zero [OF assms(2)] fits zero]
  obtain buf' cur' where
    w: "bitWrite n v ?buf cur = Inr (buf', cur')"
    and len: "length buf' = length ?buf"
    and p: "cursor_pos cur' = cursor_pos cur + n" "curBit cur' < 8"
    and a: "\<forall>j<n. bit_at buf' (cursor_pos cur + j) = bit v (n - 1 - j)"
    by blast
  have fits': "cursor_pos cur + n \<le> 8 * length buf'" using fits len by simp
  from bitRead_spec [OF assms(3) fits']
  obtain cur'' where
    r: "bitRead n buf' cur = Inr (bits_value buf' (cursor_pos cur) n, cur'')"
    and p': "cursor_pos cur'' = cursor_pos cur + n" "curBit cur'' < 8"
    by blast
  have same: "cur'' = cur'" using p p' by (intro cursor_eqI) simp_all
  have val: "bits_value buf' (cursor_pos cur) n = v"
  proof (rule bit_word_eqI)
    fix k assume "k < LENGTH(32)"
    show "bit (bits_value buf' (cursor_pos cur) n) k = bit v k"
    proof (cases "k < n")
      case True
      then have j: "n - 1 - k < n" by simp
      have e: "n - 1 - (n - 1 - k) = k" "cursor_pos cur + (n - 1 - k) = cursor_pos cur + n - 1 - k"
        using True by simp_all
      have "bit_at buf' (cursor_pos cur + n - 1 - k) = bit v k"
        using a [rule_format, OF j] unfolding e .
      then show ?thesis using True \<open>k < LENGTH(32)\<close> by (simp add: bit_bits_value)
    next
      case False
      then show ?thesis using upper_bits_zero [OF assms(2)] by (simp add: bit_bits_value)
    qed
  qed
  have noop: "n = 0 \<longrightarrow> buf' = ?buf \<and> cur' = cur" using w by auto
  show ?thesis
    using w r same val p noop by (intro exI [of _ buf'] exI [of _ cur']) (simp add: cursor_pos_def)
qed

theorem bitWrite_bitRead_roundtrip_witness:
  "\<exists>buf' cur'. bitWrite 12 0xABC (replicate 4 0) \<lparr>bytePtr = 1, curBit = 5\<rparr> = Inr (buf', cur')
      \<and> bitRead 12 buf' \<lparr>bytePtr = 1, curBit = 5\<rparr> = Inr (0xABC, cur')
      \<and> 8 * bytePtr cur' + curBit cur' = 25
      \<and> curBit cur' < 8"
  using bitWrite_bitRead_roundtrip [of 12 "0xABC" "\<lparr>bytePtr = 1, curBit = 5\<rparr>" 4]
  by simp

section \<open>The tree built by \<open>huff_tree\<close>\<close>

text \<open>The characters at the leaves of a tree, from left to right.\<close>

fun leaf_chars :: "node \<Rightarrow> byte list" where
  "leaf_chars (Leaf c n) = [c]"
| "leaf_chars (Internal n l r) = leaf_chars l @ leaf_chars r"

text \<open>
  The nodes not yet merged are the unread leaves and the queue. Each step of the loop takes
  nodes out of this forest and puts their parent in; the characters at the leaves stay.
\<close>

definition forest_chars :: "node list \<Rightarrow> byte set" where
  "forest_chars F = (\<Union>n\<in>set F. set (leaf_chars n))"

definition forest_size :: "node list \<Rightarrow> nat" where
  "forest_size F = sum_list (map (\<lambda>n. length (leaf_chars n)) F)"

lemma forest_chars_simps [simp]:
  "forest_chars [] = {}"
  "forest_chars (n # F) = set (leaf_chars n) \<union> forest_chars F"
  "forest_chars (F @ G) = forest_chars F \<union> forest_chars G"
  by (auto simp: forest_chars_def)

lemma forest_size_simps [simp]:
  "forest_size [] = 0"
  "forest_size (n # F) = length (leaf_chars n) + forest_size F"
  "forest_size (F @ G) = forest_size F + forest_size G"
  by (simp_all add: forest_size_def)

lemma forest_pop:
  assumes "k < length q"
  shows "forest_chars q = set (leaf_chars (q ! k)) \<union> forest_chars (take k q @ drop (Suc k) q)"
    and "forest_size q = length (leaf_chars (q ! k)) + forest_size (take k q @ drop (Suc k) q)"
proof -
  have q: "q = take k q @ q ! k # drop (Suc k) q"
    using assms by (simp add: id_take_nth_drop)
  show "forest_chars q = set (leaf_chars (q ! k)) \<union> forest_chars (take k q @ drop (Suc k) q)"
    by (subst q) auto
  show "forest_size q = length (leaf_chars (q ! k)) + forest_size (take k q @ drop (Suc k) q)"
    by (subst q) simp
qed

lemma get_min_node_forest:
  assumes g: "get_min_node tie (L @ [s]) i q = Inr (n, i', q')"
    and i: "i \<le> length L" and ne: "i < length L \<or> q \<noteq> []"
    and s: "count s = LAST_NODE"
  shows "i' \<le> length L"
    and "forest_chars (drop i L @ q) = set (leaf_chars n) \<union> forest_chars (drop i' L @ q')"
    and "forest_size (drop i L @ q) = length (leaf_chars n) + forest_size (drop i' L @ q')"
    and "length (drop i L @ q) = Suc (length (drop i' L @ q'))"
    and "set q' \<subseteq> set q"
    and "n \<in> set q \<or> (i < length L \<and> n = L ! i \<and> i' = Suc i \<and> q' = q)"
proof -
  have top_le: "count (pq_top tie q) \<le> LAST_NODE"
    by (simp add: LAST_NODE_def)
  consider (leaf) "i < length L" "n = L ! i" "i' = Suc i" "q' = q"
    | (queue) "q \<noteq> []" "n = pq_top tie q" "i' = i" "q' = pq_pop tie q"
  proof (cases "q = [] \<or> count ((L @ [s]) ! i) < count (pq_top tie q)")
    case True
    have "i < length L"
    proof (rule ccontr)
      assume "\<not> i < length L"
      then have il: "i = length L" using i by simp
      then have "q \<noteq> []" using ne by simp
      moreover have "\<not> count ((L @ [s]) ! i) < count (pq_top tie q)"
        using il s top_le by (simp add: not_less)
      ultimately show False using True by simp
    qed
    then show ?thesis using g True i leaf by (simp add: get_min_node_def nth_append)
  next
    case False
    then show ?thesis using g i queue by (simp add: get_min_node_def)
  qed
  then have all: "i' \<le> length L
    \<and> forest_chars (drop i L @ q) = set (leaf_chars n) \<union> forest_chars (drop i' L @ q')
    \<and> forest_size (drop i L @ q) = length (leaf_chars n) + forest_size (drop i' L @ q')
    \<and> length (drop i L @ q) = Suc (length (drop i' L @ q'))
    \<and> set q' \<subseteq> set q
    \<and> (n \<in> set q \<or> (i < length L \<and> n = L ! i \<and> i' = Suc i \<and> q' = q))"
  proof cases
    case leaf
    have d: "drop i L = L ! i # drop (Suc i) L"
      using leaf(1) by (simp add: Cons_nth_drop_Suc)
    show ?thesis using leaf by (simp add: d Un_assoc)
  next
    case queue
    have k: "pq_index tie q < length q" using queue(1) by (rule pq_index_less)
    have sub: "set (take (pq_index tie q) q @ drop (Suc (pq_index tie q)) q) \<subseteq> set q"
      by (auto dest: in_set_takeD in_set_dropD)
    show ?thesis
      using queue i k forest_pop [OF k] sub pq_top_in_set [OF queue(1), of tie]
      by (simp add: pq_pop_def pq_top_def Un_assoc Un_left_commute)
  qed
  from all show "i' \<le> length L" by blast
  from all show "forest_chars (drop i L @ q) = set (leaf_chars n) \<union> forest_chars (drop i' L @ q')" by blast
  from all show "forest_size (drop i L @ q) = length (leaf_chars n) + forest_size (drop i' L @ q')" by blast
  from all show "length (drop i L @ q) = Suc (length (drop i' L @ q'))" by blast
  from all show "set q' \<subseteq> set q" by blast
  from all show "n \<in> set q \<or> (i < length L \<and> n = L ! i \<and> i' = Suc i \<and> q' = q)" by blast
qed


lemma get_min_node_ok:
  "i \<le> length L \<Longrightarrow> \<exists>n i' q'. get_min_node tie (L @ [s]) i q = Inr (n, i', q')"
  by (simp add: get_min_node_def)

lemma leaf_chars_build_node [simp]:
  "leaf_chars (build_node l r) = leaf_chars l @ leaf_chars r"
  by (simp add: build_node_def)

lemma huff_loop_forest:
  assumes s: "count s = LAST_NODE" and real: "\<forall>n\<in>set L. count n \<noteq> LAST_NODE"
    and "i \<le> length L" and "i < length L \<or> q \<noteq> []" and "\<forall>n\<in>set q. internal_node n"
  shows "\<exists>t. huff_loop tie (L @ [s]) i q = Inr t
      \<and> set (leaf_chars t) = forest_chars (drop i L @ q)
      \<and> length (leaf_chars t) = forest_size (drop i L @ q)
      \<and> (q \<noteq> [] \<or> Suc i < length L \<longrightarrow> internal_node t)
      \<and> (q = [] \<and> Suc i = length L \<longrightarrow> t = L ! i)"
  using assms(3-5)
proof (induction "length (drop i L @ q)" arbitrary: i q rule: less_induct)
  case less
  note i = less.prems(1) and ne = less.prems(2) and int = less.prems(3)
  from get_min_node_ok [OF i] obtain l i1 q1 where
    g1: "get_min_node tie (L @ [s]) i q = Inr (l, i1, q1)" by blast
  note f1 = get_min_node_forest [OF g1 i ne s]
  have last: "count ((L @ [s]) ! i1) = LAST_NODE \<longleftrightarrow> i1 = length L"
    using f1(1) real s by (auto simp: nth_append)
  show ?case
  proof (cases "i1 = length L \<and> q1 = []")
    case True
    have run: "huff_loop tie (L @ [s]) i q = Inr l"
      using g1 f1(1) True last by (subst huff_loop.simps) simp
    have "internal_node l" if "q \<noteq> [] \<or> Suc i < length L"
      using that f1(6) True int by auto
    moreover have "l = L ! i" if "q = [] \<and> Suc i = length L"
      using that f1(6) by auto
    ultimately show ?thesis
      using run f1(2,3) True by auto
  next
    case False
    then have ne1: "i1 < length L \<or> q1 \<noteq> []" using f1(1) by auto
    from get_min_node_ok [OF f1(1)] obtain r i2 q2 where
      g2: "get_min_node tie (L @ [s]) i1 q1 = Inr (r, i2, q2)" by blast
    note f2 = get_min_node_forest [OF g2 f1(1) ne1 s]
    let ?q3 = "pq_push (build_node l r) q2"
    have run: "huff_loop tie (L @ [s]) i q = huff_loop tie (L @ [s]) i2 ?q3"
      using g1 g2 f1(1) False last by (subst huff_loop.simps) auto
    have "\<exists>t. huff_loop tie (L @ [s]) i2 ?q3 = Inr t
      \<and> set (leaf_chars t) = forest_chars (drop i2 L @ ?q3)
      \<and> length (leaf_chars t) = forest_size (drop i2 L @ ?q3)
      \<and> (?q3 \<noteq> [] \<or> Suc i2 < length L \<longrightarrow> internal_node t)
      \<and> (?q3 = [] \<and> Suc i2 = length L \<longrightarrow> t = L ! i2)"
    proof (rule less.hyps)
      show "length (drop i2 L @ ?q3) < length (drop i L @ q)"
        using f1(4) f2(4) by (simp add: pq_push_def)
      show "i2 \<le> length L" by (rule f2(1))
      show "i2 < length L \<or> ?q3 \<noteq> []" by (simp add: pq_push_def)
      show "\<forall>n\<in>set ?q3. internal_node n"
        using int f1(5) f2(5) by (auto simp: pq_push_def build_node_def)
    qed
    then obtain t where
      t: "huff_loop tie (L @ [s]) i2 ?q3 = Inr t"
      and tc: "set (leaf_chars t) = forest_chars (drop i2 L @ ?q3)"
      and tl: "length (leaf_chars t) = forest_size (drop i2 L @ ?q3)"
      and ti: "internal_node t"
      by (auto simp: pq_push_def)
    have "set (leaf_chars t) = forest_chars (drop i L @ q)"
      unfolding tc f1(2) f2(2) by (auto simp: pq_push_def)
    moreover have "length (leaf_chars t) = forest_size (drop i L @ q)"
      unfolding tl f1(3) f2(3) by (simp add: pq_push_def)
    moreover have "\<not> (q = [] \<and> Suc i = length L)"
      using f1(4) f2(4) by auto
    ultimately show ?thesis
      using run t ti by auto
  qed
qed


lemma sort_chars_fields [simp]:
  "char_frequency (sort_chars cd) = char_frequency cd"
  "max_freq (sort_chars cd) = max_freq cd"
  "codes (sort_chars cd) = codes cd"
  "head (sort_chars cd) = head cd"
  by (simp_all add: sort_chars_def Let_def)

text \<open>The byte values with a nonzero count, in ascending order.\<close>

definition support :: "(byte \<Rightarrow> u32) \<Rightarrow> byte list" where
  "support cf = filter (\<lambda>c. cf c > 0) all_bytes"

lemma set_support [simp]: "set (support cf) = {c. cf c \<noteq> 0}"
  by (auto simp: support_def word_greater_zero_iff)

lemma distinct_support [simp]: "distinct (support cf)"
  by (simp add: support_def distinct_all_bytes)

definition real_leaves :: "huffman_codec \<Rightarrow> node list" where
  "real_leaves cd =
     map (\<lambda>c. Leaf c (char_frequency cd c))
       (radix_sorted (char_frequency cd) (ceil_log10 (unat (max_freq cd)))
          (support (char_frequency cd)))"

lemma sorted_leaf_nodes_real_leaves:
  "sorted_leaf_nodes (sort_chars cd) = real_leaves cd @ [Leaf 0 LAST_NODE]"
  by (simp add: sorted_leaf_nodes_sort_chars real_leaves_def support_def)

lemma forest_chars_map_Leaf: "forest_chars (map (\<lambda>c. Leaf c (f c)) xs) = set xs"
  by (induction xs) auto

lemma forest_size_map_Leaf: "forest_size (map (\<lambda>c. Leaf c (f c)) xs) = length xs"
  by (induction xs) auto

lemma real_leaves_facts:
  "forest_chars (real_leaves cd) = {c. char_frequency cd c \<noteq> 0}"
  "forest_size (real_leaves cd) = card {c. char_frequency cd c \<noteq> 0}"
  "length (real_leaves cd) = card {c. char_frequency cd c \<noteq> 0}"
proof -
  have "card {c. char_frequency cd c \<noteq> 0} = length (support (char_frequency cd))"
    using distinct_card [OF distinct_support, of "char_frequency cd"] by simp
  then show "forest_size (real_leaves cd) = card {c. char_frequency cd c \<noteq> 0}"
    "length (real_leaves cd) = card {c. char_frequency cd c \<noteq> 0}"
    by (simp_all add: real_leaves_def forest_size_map_Leaf)
  show "forest_chars (real_leaves cd) = {c. char_frequency cd c \<noteq> 0}"
    by (simp add: real_leaves_def forest_chars_map_Leaf)
qed

lemma huff_tree_multi:
  assumes "\<forall>c. char_frequency cd c \<noteq> LAST_NODE" and "2 \<le> card {c. char_frequency cd c \<noteq> 0}"
  shows "\<exists>t. huff_tree tie cd = Inr ((sort_chars cd)\<lparr>head := Some t\<rparr>) \<and> internal_node t
           \<and> distinct (leaf_chars t) \<and> set (leaf_chars t) = {c. char_frequency cd c \<noteq> 0}"
proof -
  let ?L = "real_leaves cd"
  have real: "\<forall>n\<in>set ?L. count n \<noteq> LAST_NODE"
    using assms(1) by (auto simp: real_leaves_def)
  have len: "2 \<le> length ?L" using assms(2) by (simp add: real_leaves_facts)
  have "\<exists>t. huff_loop tie (?L @ [Leaf 0 LAST_NODE]) 0 [] = Inr t
      \<and> set (leaf_chars t) = forest_chars (drop 0 ?L @ [])
      \<and> length (leaf_chars t) = forest_size (drop 0 ?L @ [])
      \<and> ([] \<noteq> [] \<or> Suc 0 < length ?L \<longrightarrow> internal_node t)
      \<and> ([] = [] \<and> Suc 0 = length ?L \<longrightarrow> t = ?L ! 0)"
    using huff_loop_forest [where s = "Leaf 0 LAST_NODE" and L = ?L and i = 0 and q = "[]"
        and tie = tie] real len
    by (cases "real_leaves cd") auto
  then obtain t where
    t: "huff_loop tie (?L @ [Leaf 0 LAST_NODE]) 0 [] = Inr t"
    and tc: "set (leaf_chars t) = {c. char_frequency cd c \<noteq> 0}"
    and tl: "length (leaf_chars t) = card {c. char_frequency cd c \<noteq> 0}"
    and ti: "internal_node t"
    using len by (auto simp: real_leaves_facts)
  have "distinct (leaf_chars t)"
    using tc tl by (simp add: card_distinct)
  moreover have "huff_tree tie cd = Inr ((sort_chars cd)\<lparr>head := Some t\<rparr>)"
    using t by (simp add: huff_tree_def Let_def sorted_leaf_nodes_real_leaves)
  ultimately show ?thesis
    using tc ti by blast
qed

lemma distinct_singleton_set:
  assumes "set xs = {x}" and "distinct xs"
  shows "xs = [x]"
proof (cases xs)
  case Nil
  then show ?thesis using assms(1) by simp
next
  case (Cons a as)
  then have "a = x" "set as \<subseteq> {x}" "a \<notin> set as" using assms by auto
  then have "y \<notin> set as" for y by (cases "y = x") auto
  then have "as = []" by (cases as) auto
  then show ?thesis using Cons \<open>a = x\<close> by simp
qed

lemma huff_tree_single:
  assumes "{c. char_frequency cd c \<noteq> 0} = {x}"
  shows "huff_tree tie cd = Inr ((sort_chars cd)\<lparr>head := Some (Leaf x (char_frequency cd x))\<rparr>)"
proof -
  let ?S = "radix_sorted (char_frequency cd) (ceil_log10 (unat (max_freq cd)))
              (support (char_frequency cd))"
  have "set ?S = {x}" "distinct ?S"
    using assms by (simp_all add: distinct_radix_sorted)
  then have "?S = [x]" by (rule distinct_singleton_set)
  then have L: "real_leaves cd = [Leaf x (char_frequency cd x)]"
    by (simp add: real_leaves_def)
  show ?thesis
    unfolding huff_tree_def Let_def sorted_leaf_nodes_real_leaves L
    by (subst huff_loop.simps) (simp add: get_min_node_def)
qed


section \<open>The decode loop\<close>

text \<open>
  The way from the root to the leftmost leaf with character \<open>x\<close>: \<open>False\<close> for a step to the
  left child (bit 0), \<open>True\<close> for a step to the right child (bit 1).
\<close>

fun path :: "node \<Rightarrow> byte \<Rightarrow> bool list" where
  "path (Leaf c n) x = []"
| "path (Internal n l r) x =
     (if x \<in> set (leaf_chars l) then False # path l x else True # path r x)"

text \<open>The bits of \<open>buf\<close> from position \<open>pos\<close> on are \<open>bs\<close>.\<close>

definition has_bits :: "byte list \<Rightarrow> nat \<Rightarrow> bool list \<Rightarrow> bool" where
  "has_bits buf pos bs \<longleftrightarrow>
     pos + length bs \<le> 8 * length buf \<and> (\<forall>i<length bs. bit_at buf (pos + i) = bs ! i)"

lemma has_bits_Cons:
  "has_bits buf pos (b # bs) \<longleftrightarrow>
     pos < 8 * length buf \<and> bit_at buf pos = b \<and> has_bits buf (Suc pos) bs"
  by (auto simp: has_bits_def less_Suc_eq_0_disj)

lemma has_bits_append:
  "has_bits buf pos (as @ bs) \<longleftrightarrow> has_bits buf pos as \<and> has_bits buf (pos + length as) bs"
proof (induction as arbitrary: pos)
  case Nil
  show ?case by (auto simp: has_bits_def)
next
  case (Cons a as)
  show ?case by (auto simp: has_bits_Cons Cons.IH) 
qed

lemma has_bits_Nil [simp]: "has_bits buf pos [] \<longleftrightarrow> pos \<le> 8 * length buf"
  by (simp add: has_bits_def)

lemma bitRead_one:
  assumes "curBit cur < 8" and "cursor_pos cur < 8 * length buf"
  shows "\<exists>cur'. bitRead (Suc 0) buf cur = Inr (of_bool (bit_at buf (cursor_pos cur)), cur')
          \<and> cursor_pos cur' = Suc (cursor_pos cur) \<and> curBit cur' < 8"
proof -
  have "cursor_pos cur + Suc 0 \<le> 8 * length buf" using assms(2) by simp
  from bitRead_spec [OF assms(1) this] show ?thesis by simp
qed

lemma ucast_of_bool_zero: "(ucast (of_bool b :: u32) :: byte) = 0 \<longleftrightarrow> \<not> b"
  by (cases b) simp_all

lemma decode_walk:
  assumes "internal_node t" and "x \<in> set (leaf_chars t)"
    and "has_bits buf (cursor_pos cur) (path t x)" and "curBit cur < 8"
    and "0 < u" and "opos < length out"
  shows "\<exists>cur'. decode_loop h buf cur t out opos cf u =
           decode_loop h buf cur' h (out[opos := Some x]) (opos + 1) (cf(x := cf x - 1))
             (if cf x - 1 = 0 then u - 1 else u)
         \<and> cursor_pos cur' = cursor_pos cur + length (path t x) \<and> curBit cur' < 8"
  using assms(1-4)
proof (induction t arbitrary: cur)
  case (Leaf c n)
  then show ?case by simp
next
  case (Internal n l r)
  define b where "b = (x \<notin> set (leaf_chars l))"
  define child where "child = (if b then r else l)"
  have p: "path (Internal n l r) x = b # path child x"
    by (simp add: b_def child_def)
  have xin: "x \<in> set (leaf_chars child)"
    using Internal.prems(2) by (auto simp: b_def child_def)
  have hb: "cursor_pos cur < 8 * length buf" "bit_at buf (cursor_pos cur) = b"
    "has_bits buf (Suc (cursor_pos cur)) (path child x)"
    using Internal.prems(3) unfolding p by (simp_all add: has_bits_Cons)
  from bitRead_one [OF Internal.prems(4) hb(1)] obtain cur1 where
    rd: "bitRead (Suc 0) buf cur = Inr (of_bool b, cur1)"
    and c1: "cursor_pos cur1 = Suc (cursor_pos cur)" "curBit cur1 < 8"
    using hb(2) by auto
  have step: "decode_loop h buf cur (Internal n l r) out opos cf u =
      (if \<not> internal_node child then
         decode_loop h buf cur1 h (out[opos := Some (character child)]) (opos + 1)
           (cf(character child := cf (character child) - 1))
           (if cf (character child) - 1 = 0 then u - 1 else u)
       else decode_loop h buf cur1 child out opos cf u)"
    using assms(5,6) rd
    by (subst decode_loop.simps) (auto simp: Let_def child_def ucast_of_bool_zero)
  show ?case
  proof (cases "internal_node child")
    case False
    then obtain c m where ch: "child = Leaf c m" by (cases child) auto
    then have "c = x" using xin by simp
    have e: "decode_loop h buf cur (Internal n l r) out opos cf u =
        decode_loop h buf cur1 h (out[opos := Some x]) (opos + 1) (cf(x := cf x - 1))
             (if cf x - 1 = 0 then u - 1 else u)"
      unfolding step using False ch \<open>c = x\<close> by simp
    have "length (path (Internal n l r) x) = 1"
      unfolding p using ch by simp
    then have "cursor_pos cur1 = cursor_pos cur + length (path (Internal n l r) x)"
      using c1 by simp
    then show ?thesis
      using e c1(2) by blast
  next
    case True
    have "\<exists>cur'. decode_loop h buf cur1 child out opos cf u =
           decode_loop h buf cur' h (out[opos := Some x]) (opos + 1) (cf(x := cf x - 1))
             (if cf x - 1 = 0 then u - 1 else u)
         \<and> cursor_pos cur' = cursor_pos cur1 + length (path child x) \<and> curBit cur' < 8"
    proof (cases b)
      case True
      then have cr: "child = r" by (simp add: child_def)
      show ?thesis
        using \<open>internal_node child\<close> xin hb(3) c1 unfolding cr
        by (intro Internal.IH(2)) simp_all
    next
      case False
      then have cl: "child = l" by (simp add: child_def)
      show ?thesis
        using \<open>internal_node child\<close> xin hb(3) c1 unfolding cl
        by (intro Internal.IH(1)) simp_all
    qed
    then obtain cur' where
      e: "decode_loop h buf cur (Internal n l r) out opos cf u =
           decode_loop h buf cur' h (out[opos := Some x]) (opos + 1) (cf(x := cf x - 1))
             (if cf x - 1 = 0 then u - 1 else u)"
      and c': "cursor_pos cur' = cursor_pos cur1 + length (path child x)" "curBit cur' < 8"
      unfolding step using True by auto
    have "cursor_pos cur' = cursor_pos cur + length (path (Internal n l r) x)"
      unfolding p using c' c1 by simp
    then show ?thesis
      using e c'(2) by blast
  qed
qed


text \<open>
  The table of counts of a byte sequence and its number of distinct bytes, as the 32-bit
  values the codec holds. \<open>consumed h syms\<close> is the number of bits the loop reads to emit
  \<open>syms\<close>: the lengths of their paths, or one bit per symbol when the root is a leaf.
  \<open>stream_ok h buf pos syms\<close>: the bit stream from \<open>pos\<close> on matches \<open>syms\<close>, that is, it holds
  the paths of \<open>syms\<close> one after the other (when the root is a leaf: it holds one bit, of
  any value, for every symbol).
\<close>

definition freq_of :: "byte list \<Rightarrow> byte \<Rightarrow> u32" where
  "freq_of s = (\<lambda>c. of_nat (count_list s c))"

definition unique_of :: "byte list \<Rightarrow> u32" where
  "unique_of s = of_nat (card (set s))"

definition consumed :: "node \<Rightarrow> byte list \<Rightarrow> nat" where
  "consumed h syms =
     (if internal_node h then length (concat (map (path h) syms)) else length syms)"

definition stream_ok :: "node \<Rightarrow> byte list \<Rightarrow> nat \<Rightarrow> byte list \<Rightarrow> bool" where
  "stream_ok h buf pos syms \<longleftrightarrow>
     (if internal_node h then has_bits buf pos (concat (map (path h) syms))
      else pos + length syms \<le> 8 * length buf)"

lemma card_bytes_le: "card (A :: byte set) \<le> 256"
proof -
  have "card A \<le> card (UNIV :: byte set)" by (rule card_mono) simp_all
  then show ?thesis by (simp add: card_word)
qed

lemma unique_of_eq_0: "unique_of s = 0 \<longleftrightarrow> s = []"
proof -
  have "card (set s) < 2 ^ 32" using card_bytes_le [of "set s"] by simp
  then have "unat (unique_of s) = card (set s)"
    by (simp add: unique_of_def unat_of_nat)
  then show ?thesis by (metis card_0_eq List.finite_set set_empty unat_eq_zero)
qed

lemma unique_of_counts:
  "length s < 2 ^ 32 \<Longrightarrow> unat (unique_of s) = card {c. freq_of s c \<noteq> 0}"
proof -
  assume len: "length s < 2 ^ 32"
  have "freq_of s c \<noteq> 0 \<longleftrightarrow> c \<in> set s" for c
  proof -
    have "count_list s c \<le> length s" by (rule count_list_le_length)
    then have "unat (freq_of s c) = count_list s c"
      using len by (simp add: freq_of_def unat_of_nat)
    then show ?thesis
      by (metis count_list_0_iff unat_eq_zero)
  qed
  then have "{c. freq_of s c \<noteq> 0} = set s" by auto
  moreover have "card (set s) < 2 ^ 32" using card_bytes_le [of "set s"] by simp
  ultimately show ?thesis by (simp add: unique_of_def unat_of_nat)
qed

lemma freq_of_step:
  "(freq_of (x # ys))(x := freq_of (x # ys) x - 1) = freq_of ys"
  by (auto simp: freq_of_def fun_eq_iff)

lemma freq_of_zero_iff:
  assumes "length ys < 2 ^ 32"
  shows "freq_of ys x = 0 \<longleftrightarrow> x \<notin> set ys"
proof -
  have "count_list ys x \<le> length ys" by (rule count_list_le_length)
  then have "unat (freq_of ys x) = count_list ys x"
    using assms by (simp add: freq_of_def unat_of_nat)
  then show ?thesis by (metis count_list_0_iff unat_eq_zero)
qed

lemma unique_of_step:
  assumes "length ys < 2 ^ 32"
  shows "(if freq_of (x # ys) x - 1 = 0 then unique_of (x # ys) - 1 else unique_of (x # ys))
         = unique_of ys"
proof -
  have f: "freq_of (x # ys) x - 1 = freq_of ys x" by (simp add: freq_of_def)
  show ?thesis
  proof (cases "x \<in> set ys")
    case True
    then have "set (x # ys) = set ys" by auto
    then show ?thesis
      using True freq_of_zero_iff [OF assms, of x] by (simp add: f unique_of_def)
  next
    case False
    then have "card (set (x # ys)) = Suc (card (set ys))" by simp
    then show ?thesis
      using False freq_of_zero_iff [OF assms, of x] by (simp add: f unique_of_def)
  qed
qed

lemma decode_symbol:
  assumes "x \<in> set (leaf_chars h)" and "stream_ok h buf (cursor_pos cur) (x # rest)"
    and "curBit cur < 8" and "0 < u" and "opos < length out"
  shows "\<exists>cur'. decode_loop h buf cur h out opos cf u =
           decode_loop h buf cur' h (out[opos := Some x]) (opos + 1) (cf(x := cf x - 1))
             (if cf x - 1 = 0 then u - 1 else u)
         \<and> cursor_pos cur' = cursor_pos cur + consumed h [x] \<and> curBit cur' < 8
         \<and> stream_ok h buf (cursor_pos cur') rest"
proof (cases "internal_node h")
  case True
  have hb: "has_bits buf (cursor_pos cur) (path h x)"
    "has_bits buf (cursor_pos cur + length (path h x)) (concat (map (path h) rest))"
    using assms(2) True by (simp_all add: stream_ok_def has_bits_append)
  from decode_walk [OF True assms(1) hb(1) assms(3,4,5), of h cf]
  obtain cur' where
    "decode_loop h buf cur h out opos cf u =
           decode_loop h buf cur' h (out[opos := Some x]) (opos + 1) (cf(x := cf x - 1))
             (if cf x - 1 = 0 then u - 1 else u)"
    "cursor_pos cur' = cursor_pos cur + length (path h x)" "curBit cur' < 8"
    by blast
  then show ?thesis
    using True hb(2) by (intro exI [of _ cur']) (simp add: consumed_def stream_ok_def)
next
  case False
  then obtain c n where h: "h = Leaf c n" by (cases h) auto
  then have cx: "c = x" using assms(1) by simp
  have rd: "cursor_pos cur < 8 * length buf"
    using assms(2) False by (simp add: stream_ok_def)
  from bitRead_one [OF assms(3) rd] obtain cur1 where
    r: "bitRead (Suc 0) buf cur = Inr (of_bool (bit_at buf (cursor_pos cur)), cur1)"
    and c1: "cursor_pos cur1 = Suc (cursor_pos cur)" "curBit cur1 < 8"
    by blast
  have e: "decode_loop h buf cur h out opos cf u =
           decode_loop h buf cur1 h (out[opos := Some x]) (opos + 1) (cf(x := cf x - 1))
             (if cf x - 1 = 0 then u - 1 else u)"
    using assms(4,5) r h cx by (subst decode_loop.simps) (simp add: Let_def)
  have "stream_ok h buf (cursor_pos cur1) rest"
    using assms(2) False c1 by (simp add: stream_ok_def)
  moreover have "cursor_pos cur1 = cursor_pos cur + consumed h [x]"
    using False c1 by (simp add: consumed_def)
  ultimately show ?thesis using e c1(2) by blast
qed


lemma consumed_Cons: "consumed h (x # p) = consumed h [x] + consumed h p"
  by (simp add: consumed_def)

lemma consumed_Nil [simp]: "consumed h [] = 0"
  by (simp add: consumed_def)

lemma decode_prefix:
  assumes "set (p @ s) \<subseteq> set (leaf_chars h)" and "length (p @ s) < 2 ^ 32"
    and "stream_ok h buf (cursor_pos cur) (p @ s)" and "curBit cur < 8"
    and "opos + length p \<le> length out"
  shows "\<exists>cur'. decode_loop h buf cur h out opos (freq_of (p @ s)) (unique_of (p @ s)) =
           decode_loop h buf cur' h (take opos out @ map Some p @ drop (opos + length p) out)
             (opos + length p) (freq_of s) (unique_of s)
         \<and> cursor_pos cur' = cursor_pos cur + consumed h p \<and> curBit cur' < 8
         \<and> stream_ok h buf (cursor_pos cur') s"
  using assms
proof (induction p arbitrary: cur out opos)
  case Nil
  then show ?case by (intro exI [of _ cur]) simp
next
  case (Cons x p)
  have x: "x \<in> set (leaf_chars h)" using Cons.prems(1) by simp
  have st: "stream_ok h buf (cursor_pos cur) (x # (p @ s))" using Cons.prems(3) by simp
  have u: "0 < unique_of (x # p @ s)"
    using unique_of_eq_0 [of "x # p @ s"] by (simp add: word_greater_zero_iff)
  have o: "opos < length out" using Cons.prems(5) by simp
  have len: "length (p @ s) < 2 ^ 32" using Cons.prems(2) by simp
  from decode_symbol [OF x st Cons.prems(4) u o, of "freq_of (x # p @ s)"]
  obtain cur1 where
    e1: "decode_loop h buf cur h out opos (freq_of (x # p @ s)) (unique_of (x # p @ s)) =
           decode_loop h buf cur1 h (out[opos := Some x]) (opos + 1) (freq_of (p @ s))
             (unique_of (p @ s))"
    and c1: "cursor_pos cur1 = cursor_pos cur + consumed h [x]" "curBit cur1 < 8"
    and s1: "stream_ok h buf (cursor_pos cur1) (p @ s)"
    unfolding freq_of_step unique_of_step [OF len] by blast
  have "\<exists>cur'. decode_loop h buf cur1 h (out[opos := Some x]) (opos + 1) (freq_of (p @ s))
             (unique_of (p @ s)) =
           decode_loop h buf cur' h
             (take (opos + 1) (out[opos := Some x]) @ map Some p @
              drop (opos + 1 + length p) (out[opos := Some x]))
             (opos + 1 + length p) (freq_of s) (unique_of s)
         \<and> cursor_pos cur' = cursor_pos cur1 + consumed h p \<and> curBit cur' < 8
         \<and> stream_ok h buf (cursor_pos cur') s"
    using Cons.prems(1,5) len s1 c1(2) by (intro Cons.IH) simp_all
  then obtain cur' where
    e2: "decode_loop h buf cur1 h (out[opos := Some x]) (opos + 1) (freq_of (p @ s))
             (unique_of (p @ s)) =
           decode_loop h buf cur' h
             (take (opos + 1) (out[opos := Some x]) @ map Some p @
              drop (opos + 1 + length p) (out[opos := Some x]))
             (opos + 1 + length p) (freq_of s) (unique_of s)"
    and c2: "cursor_pos cur' = cursor_pos cur1 + consumed h p" "curBit cur' < 8"
    and s2: "stream_ok h buf (cursor_pos cur') s"
    by blast
  have buf_eq: "take (opos + 1) (out[opos := Some x]) @ map Some p @
              drop (opos + 1 + length p) (out[opos := Some x]) =
            take opos out @ map Some (x # p) @ drop (opos + length (x # p)) out"
    using o by (simp add: take_Suc_conv_app_nth)
  have pos: "cursor_pos cur' = cursor_pos cur + consumed h (x # p)"
    using c1 c2 consumed_Cons [of h x p] by simp
  have "decode_loop h buf cur h out opos (freq_of ((x # p) @ s)) (unique_of ((x # p) @ s)) =
           decode_loop h buf cur' h (take opos out @ map Some (x # p) @
              drop (opos + length (x # p)) out)
             (opos + length (x # p)) (freq_of s) (unique_of s)"
    using e1 e2 unfolding buf_eq by simp
  then show ?case using pos c2(2) s2 by blast
qed

lemma decode_loop_done: "decode_loop h buf cur n out opos cf 0 = Inr (out, opos, cf)"
  by (subst decode_loop.simps) simp

lemma freq_of_Nil [simp]: "freq_of [] = (\<lambda>_. 0)"
  by (simp add: freq_of_def)

lemma unique_of_Nil [simp]: "unique_of [] = 0"
  by (simp add: unique_of_def)

lemma decode_loop_all:
  assumes "set b \<subseteq> set (leaf_chars h)" and "length b < 2 ^ 32"
    and "stream_ok h buf (cursor_pos cur) b" and "curBit cur < 8"
    and "length b \<le> length out"
  shows "decode_loop h buf cur h out 0 (freq_of b) (unique_of b) =
           Inr (map Some b @ drop (length b) out, length b, \<lambda>_. 0)"
  using decode_prefix [of b "[]" h buf cur 0 out] assms
  by (auto simp: decode_loop_done)


section \<open>Termination of the decode loop\<close>

lemma sum_count_list: "(\<Sum>c\<in>(UNIV::byte set). count_list b c) = length b"
proof (induction b)
  case Nil
  show ?case by simp
next
  case (Cons x xs)
  have "(\<Sum>c\<in>(UNIV::byte set). count_list (x # xs) c) =
        (\<Sum>c\<in>UNIV. count_list xs c + (if x = c then 1 else 0))"
    by (intro sum.cong) auto
  also have "\<dots> = (\<Sum>c\<in>UNIV. count_list xs c) + (\<Sum>c\<in>(UNIV::byte set). if x = c then 1 else 0)"
    by (rule sum.distrib)
  also have "(\<Sum>c\<in>(UNIV::byte set). if x = c then 1 else 0) = (1::nat)"
    by simp
  finally show ?case using Cons by simp
qed

lemma unat_freq_of: "length b < 2 ^ 32 \<Longrightarrow> unat (freq_of b c) = count_list b c"
proof -
  assume "length b < 2 ^ 32"
  moreover have "count_list b c \<le> length b" by (rule count_list_le_length)
  ultimately show ?thesis by (simp add: freq_of_def unat_of_nat)
qed

lemma sum_freq_of: "length b < 2 ^ 32 \<Longrightarrow> (\<Sum>c\<in>UNIV. unat (freq_of b c)) = length b"
  by (simp add: unat_freq_of sum_count_list)

lemma support_freq_of: "length b < 2 ^ 32 \<Longrightarrow> {c. freq_of b c \<noteq> 0} = set b"
  using freq_of_zero_iff [of b] by auto

lemma count_list_less_length:
  assumes "y \<in> set b" "y \<noteq> c"
  shows "count_list b c < length b"
  using assms
proof (induction b)
  case Nil
  then show ?case by simp
next
  case (Cons x xs)
  have le: "count_list xs c \<le> length xs" by (rule count_list_le_length)
  show ?case
  proof (cases "x = c")
    case True
    then have "y \<in> set xs" using Cons.prems by auto
    then show ?thesis using Cons.IH Cons.prems(2) True by simp
  next
    case False
    then show ?thesis using le by simp
  qed
qed

lemma huff_tree_of_input:
  assumes hdr: "char_frequency cd0 = freq_of b" and ne: "b \<noteq> []" and len: "length b < 2 ^ 32"
  shows "\<exists>h. huff_tree tie cd0 = Inr ((sort_chars cd0)\<lparr>head := Some h\<rparr>)
           \<and> set (leaf_chars h) = set b \<and> distinct (leaf_chars h)
           \<and> (internal_node h \<longleftrightarrow> 2 \<le> card (set b))"
proof (cases "2 \<le> card (set b)")
  case True
  have no_last: "char_frequency cd0 c \<noteq> LAST_NODE" for c
  proof -
    obtain y where y: "y \<in> set b" "y \<noteq> c"
    proof -
      have "\<not> set b \<subseteq> {c}"
      proof
        assume "set b \<subseteq> {c}"
        then have "card (set b) \<le> card {c}" by (intro card_mono) simp_all
        then show False using True by simp
      qed
      then show ?thesis using that by auto
    qed
    have "count_list b c < length b" using y by (rule count_list_less_length)
    then have "unat (freq_of b c) < 2 ^ 32 - 1"
      using len by (simp add: unat_freq_of)
    moreover have "unat LAST_NODE = 2 ^ 32 - 1"
      by (simp add: LAST_NODE_def unsigned_minus_1_eq_mask mask_eq_exp_minus_1)
    ultimately show ?thesis unfolding hdr by auto
  qed
  have "2 \<le> card {c. char_frequency cd0 c \<noteq> 0}"
    using True by (simp add: hdr support_freq_of [OF len])
  from huff_tree_multi [of cd0 tie] no_last this
  show ?thesis using True by (auto simp: hdr support_freq_of [OF len])
next
  case False
  have "0 < card (set b)" using ne by (simp add: card_gt_0_iff)
  then have "card (set b) = 1" using False by linarith
  then obtain x where x: "set b = {x}" by (auto simp: card_1_singleton_iff)
  then have "{c. char_frequency cd0 c \<noteq> 0} = {x}"
    by (simp add: hdr support_freq_of [OF len])
  from huff_tree_single [OF this, of tie]
  show ?thesis using x False
    by (intro exI [of _ "Leaf x (char_frequency cd0 x)"]) simp
qed


lemma huff_tree_keeps_frequency:
  "huff_tree tie cd0 = Inr cd \<Longrightarrow> char_frequency cd = char_frequency cd0"
  by (auto simp: huff_tree_def Let_def split: sum.splits)

text \<open>
  The decode loop on a stream that holds the bits it reads. Let the table of the header
  hold the counts of the bytes of a non-empty sequence \<open>b\<close> shorter than \<open>2 ^ 32\<close>, let \<open>h\<close>
  be the tree \<open>huff_tree\<close> builds from it, and let the bit stream at byte \<open>pos\<close> of \<open>bufin\<close>
  satisfy \<open>stream_ok\<close>: for a tree with internal nodes it holds the concatenated paths of
  the bytes of \<open>b\<close>; for a tree that is a single leaf it holds one readable bit for every
  byte of \<open>b\<close> (a stream the encoder never writes, see the section on single-symbol
  inputs). Then \<open>decode\<close>,
  called with \<open>uniqueChars\<close> the number of byte values of nonzero count, returns; it has
  emitted exactly the bytes of \<open>b\<close>, whose number is the sum of the 256 counts of the header,
  and every remaining count is 0. Whenever \<open>b = p @ s\<close>, the loop passes through the state
  in which \<open>p\<close> is emitted, the remaining counts are those of \<open>s\<close> and \<open>uniqueChars\<close> is the
  number of byte values with a nonzero remaining count; that number is 0 only for \<open>s = []\<close>,
  so the loop stops after the last byte of \<open>b\<close> and not before.
\<close>

theorem decode_runs_until_counts_are_zero:
  assumes "huff_tree tie cd0 = Inr cd" and "head cd = Some h"
    and "char_frequency cd0 = freq_of b" and "b \<noteq> []" and "length b < 2 ^ 32"
    and "stream_ok h bufin (8 * pos) b"
    and "length b \<le> length out"
  shows "decode cd bufin pos out (unique_of b) =
           Inr (map Some b @ drop (length b) out, cd\<lparr>char_frequency := (\<lambda>_. 0)\<rparr>)
     \<and> length b = (\<Sum>c\<in>UNIV. unat (char_frequency cd0 c))
     \<and> unat (unique_of b) = card {c. char_frequency cd0 c \<noteq> 0}
     \<and> (\<forall>p s. b = p @ s \<longrightarrow>
          (\<exists>cur. decode_loop h bufin \<lparr>bytePtr = pos, curBit = 0\<rparr> h out 0
                    (freq_of b) (unique_of b) =
                  decode_loop h bufin cur h (map Some p @ drop (length p) out) (length p)
                    (freq_of s) (unique_of s))
          \<and> unat (unique_of s) = card {c. freq_of s c \<noteq> 0}
          \<and> (unique_of s = 0 \<longleftrightarrow> s = []))"
proof -
  let ?cur = "\<lparr>bytePtr = pos, curBit = 0\<rparr>"
  from huff_tree_of_input [OF assms(3,4,5), of tie] obtain h' where
    t: "huff_tree tie cd0 = Inr ((sort_chars cd0)\<lparr>head := Some h'\<rparr>)"
    and c: "set (leaf_chars h') = set b" by blast
  have "cd = (sort_chars cd0)\<lparr>head := Some h'\<rparr>" using t assms(1) by simp
  then have "head cd = Some h'" by simp
  then have "h' = h" using assms(2) by simp
  then have chars: "set (leaf_chars h) = set b" using c by simp
  have cf: "char_frequency cd = freq_of b"
    using huff_tree_keeps_frequency [OF assms(1)] assms(3) by simp
  have cp: "cursor_pos ?cur = 8 * pos" "curBit ?cur < 8"
    by (simp_all add: cursor_pos_def)
  have st: "stream_ok h bufin (cursor_pos ?cur) b" using assms(6) cp by simp
  have "decode_loop h bufin ?cur h out 0 (freq_of b) (unique_of b) =
           Inr (map Some b @ drop (length b) out, length b, \<lambda>_. 0)"
    using chars assms(5,7) st cp(2) by (intro decode_loop_all) simp_all
  then have 1: "decode cd bufin pos out (unique_of b) =
           Inr (map Some b @ drop (length b) out, cd\<lparr>char_frequency := (\<lambda>_. 0)\<rparr>)"
    by (simp add: decode_def assms(2) cf)
  have 2: "length b = (\<Sum>c\<in>UNIV. unat (char_frequency cd0 c))"
    by (simp add: assms(3) sum_freq_of [OF assms(5)])
  have 3: "unat (unique_of b) = card {c. char_frequency cd0 c \<noteq> 0}"
    by (simp add: assms(3) unique_of_counts [OF assms(5)])
  have 4: "(\<exists>cur. decode_loop h bufin ?cur h out 0 (freq_of b) (unique_of b) =
                  decode_loop h bufin cur h (map Some p @ drop (length p) out) (length p)
                    (freq_of s) (unique_of s))
          \<and> unat (unique_of s) = card {c. freq_of s c \<noteq> 0}
          \<and> (unique_of s = 0 \<longleftrightarrow> s = [])" if b: "b = p @ s" for p s
  proof -
    have len: "length (p @ s) < 2 ^ 32" "length s < 2 ^ 32" using assms(5) b by simp_all
    have "\<exists>cur'. decode_loop h bufin ?cur h out 0 (freq_of (p @ s)) (unique_of (p @ s)) =
           decode_loop h bufin cur' h (take 0 out @ map Some p @ drop (0 + length p) out)
             (0 + length p) (freq_of s) (unique_of s)
         \<and> cursor_pos cur' = cursor_pos ?cur + consumed h p \<and> curBit cur' < 8
         \<and> stream_ok h bufin (cursor_pos cur') s"
      using chars st cp(2) assms(7) len(1) unfolding b by (intro decode_prefix) simp_all
    then obtain cur' where
      "decode_loop h bufin ?cur h out 0 (freq_of (p @ s)) (unique_of (p @ s)) =
           decode_loop h bufin cur' h (map Some p @ drop (length p) out)
             (length p) (freq_of s) (unique_of s)"
      by auto
    then have "\<exists>cur. decode_loop h bufin ?cur h out 0 (freq_of b) (unique_of b) =
                  decode_loop h bufin cur h (map Some p @ drop (length p) out) (length p)
                    (freq_of s) (unique_of s)"
      unfolding b by (rule exI)
    then show ?thesis
      using unique_of_counts [OF len(2)] unique_of_eq_0 [of s] by blast
  qed
  have all_splits: "\<forall>p s. b = p @ s \<longrightarrow>
          (\<exists>cur. decode_loop h bufin ?cur h out 0 (freq_of b) (unique_of b) =
                  decode_loop h bufin cur h (map Some p @ drop (length p) out) (length p)
                    (freq_of s) (unique_of s))
          \<and> unat (unique_of s) = card {c. freq_of s c \<noteq> 0}
          \<and> (unique_of s = 0 \<longleftrightarrow> s = [])"
    by (intro allI impI) (rule 4)
  show ?thesis by (rule conjI [OF 1 conjI [OF 2 conjI [OF 3 all_splits]]])
qed

lemma huff_loop_two_leaves:
  assumes "n1 \<noteq> LAST_NODE" "n2 \<noteq> LAST_NODE"
  shows "huff_loop tie [Leaf c1 n1, Leaf c2 n2, Leaf 0 LAST_NODE] 0 [] =
         Inr (Internal (n1 + n2) (Leaf c1 n1) (Leaf c2 n2))"
  using assms
  apply (subst huff_loop.simps)
  apply (simp add: get_min_node_def pq_push_def build_node_def)
  apply (subst huff_loop.simps)
  apply (simp add: get_min_node_def pq_top_def pq_pop_def pq_index_def pq_candidates_def
      LAST_NODE_def not_less)
  done


lemma huff_tree_ab:
  "huff_tree tie ((new_codec g)\<lparr>char_frequency := freq_of [0x61, 0x62], max_freq := 1\<rparr>) =
   Inr ((sort_chars ((new_codec g)\<lparr>char_frequency := freq_of [0x61, 0x62], max_freq := 1\<rparr>))
          \<lparr>head := Some (Internal 2 (Leaf 0x61 1) (Leaf 0x62 1))\<rparr>)"
proof -
  let ?start = "(new_codec g)\<lparr>char_frequency := freq_of [0x61, 0x62], max_freq := 1\<rparr>"
  have "sorted_leaf_nodes (sort_chars ?start) =
      map (\<lambda>c. Leaf c (freq_of [0x61, 0x62] c))
        (radix_sorted (freq_of [0x61, 0x62]) (ceil_log10 (unat (1::u32))) [0x61, 0x62])
      @ [Leaf 0 LAST_NODE]"
    by (rule sort_chars_leaves) (auto simp: freq_of_def split: if_splits)
  also have "ceil_log10 (unat (1::u32)) = 0" by (simp add: ceil_log10.simps)
  finally have leaves: "sorted_leaf_nodes (sort_chars ?start) =
      [Leaf 0x61 1, Leaf 0x62 1, Leaf 0 LAST_NODE]"
    by (simp add: freq_of_def)
  have "huff_loop tie [Leaf 0x61 1, Leaf 0x62 1, Leaf 0 LAST_NODE] 0 [] =
         Inr (Internal (1 + 1) (Leaf 0x61 1) (Leaf 0x62 1))"
    by (rule huff_loop_two_leaves) (simp_all add: LAST_NODE_def)
  then show ?thesis
    unfolding huff_tree_def Let_def leaves by simp
qed

theorem decode_runs_until_counts_are_zero_witness:
  "stream_ok (Internal 2 (Leaf 0x61 1) (Leaf 0x62 1)) [0x40] (8 * 0) [0x61, 0x62]
   \<and> decode
       ((sort_chars ((new_codec (\<lambda>_. \<lparr>length_c = 0, value_c = 0\<rparr>))
            \<lparr>char_frequency := freq_of [0x61, 0x62], max_freq := 1\<rparr>))
          \<lparr>head := Some (Internal 2 (Leaf 0x61 1) (Leaf 0x62 1))\<rparr>)
       [0x40] 0 [None, None] (unique_of [0x61, 0x62]) =
     Inr ([Some 0x61, Some 0x62],
          (sort_chars ((new_codec (\<lambda>_. \<lparr>length_c = 0, value_c = 0\<rparr>))
             \<lparr>char_frequency := freq_of [0x61, 0x62], max_freq := 1\<rparr>))
           \<lparr>head := Some (Internal 2 (Leaf 0x61 1) (Leaf 0x62 1)),
            char_frequency := (\<lambda>_. 0)\<rparr>)"
proof -
  let ?g = "\<lambda>_::byte. \<lparr>length_c = 0, value_c = 0\<rparr>"
  let ?start = "(new_codec ?g)\<lparr>char_frequency := freq_of [0x61, 0x62], max_freq := 1\<rparr>"
  let ?h = "Internal 2 (Leaf 0x61 1) (Leaf 0x62 1)"
  let ?cd = "(sort_chars ?start)\<lparr>head := Some ?h\<rparr>"
  have 1: "huff_tree (\<lambda>q. 0) ?start = Inr ?cd" by (rule huff_tree_ab)
  have 2: "head ?cd = Some ?h" by simp
  have 3: "char_frequency ?start = freq_of [0x61, 0x62]" by simp
  have 4: "[0x61, 0x62 :: byte] \<noteq> []" by simp
  have 5: "length [0x61, 0x62 :: byte] < 2 ^ 32" by simp
  have 6: "stream_ok ?h [0x40] (8 * 0) [0x61, 0x62]"
    by (simp add: stream_ok_def has_bits_Cons bit_at_def)
  have 7: "length [0x61, 0x62 :: byte] \<le> length [None, None :: byte option]" by simp
  from decode_runs_until_counts_are_zero [OF 1 2 3 4 5 6 7] 6
  show ?thesis by simp
qed


section \<open>What the passes of the radix sorter achieve\<close>

lemma stable_unique:
  fixes f :: "'a \<Rightarrow> nat"
  assumes "sorted (map f ys)" and "sorted (map f zs)"
    and "\<And>a. filter (\<lambda>x. f x = a) ys = filter (\<lambda>x. f x = a) zs"
  shows "ys = zs"
  using assms
proof (induction ys arbitrary: zs)
  case Nil
  show ?case
  proof (cases zs)
    case (Cons z zs')
    then show ?thesis using Nil.prems(3) [of "f z"] by simp
  qed simp
next
  case (Cons y ys)
  have ey: "filter (\<lambda>x. f x = f y) (y # ys) = filter (\<lambda>x. f x = f y) zs"
    by (rule Cons.prems(3))
  have "y \<in> set (filter (\<lambda>x. f x = f y) (y # ys))" by simp
  then have yin: "y \<in> set (filter (\<lambda>x. f x = f y) zs)" unfolding ey .
  then obtain z zs' where zs: "zs = z # zs'" by (cases zs) auto
  have ez: "filter (\<lambda>x. f x = f z) (y # ys) = filter (\<lambda>x. f x = f z) zs"
    by (rule Cons.prems(3))
  have "z \<in> set (filter (\<lambda>x. f x = f z) zs)" by (simp add: zs)
  then have zin: "z \<in> set (filter (\<lambda>x. f x = f z) (y # ys))" unfolding ez .
  have "\<forall>u\<in>set (y # ys). f y \<le> f u" using Cons.prems(1) by auto
  moreover have "z \<in> set (y # ys)" using zin by (simp only: set_filter) blast
  ultimately have le1: "f y \<le> f z" by blast
  have "\<forall>u\<in>set (z # zs'). f z \<le> f u" using Cons.prems(2) zs by auto
  moreover have "y \<in> set (z # zs')" using yin zs by (simp only: set_filter) blast
  ultimately have le2: "f z \<le> f y" by blast
  have fz: "f z = f y" using le1 le2 by simp
  have yz: "y = z" using Cons.prems(3) [of "f y"] zs fz by simp
  have "ys = zs'"
  proof (rule Cons.IH)
    show "sorted (map f ys)" using Cons.prems(1) by simp
    show "sorted (map f zs')" using Cons.prems(2) zs by simp
    show "filter (\<lambda>x. f x = a) ys = filter (\<lambda>x. f x = a) zs'" for a
      using Cons.prems(3) [of a] zs yz by (cases "f z = a") simp_all
  qed
  then show ?case using zs yz by simp
qed

lemma stable_by_digit_same_digit:
  assumes "\<forall>x\<in>set ys. g x = d" and "d < 10"
  shows "stable_by_digit g ys = ys"
proof -
  have f: "filter (\<lambda>c. g c = e) ys = (if e = d then ys else [])" for e
    using assms(1) by (induction ys) auto
  have "concat (map (\<lambda>e. if e = d then ys else []) [0..<n]) = (if d < n then ys else [])" for n
    by (induction n) auto
  then show ?thesis using assms(2) by (simp add: stable_by_digit_def f)
qed

lemma sorted_buckets:
  fixes f g :: "'a \<Rightarrow> nat"
  assumes "sorted (map f R)" and "\<And>x. f x < M"
  shows "sorted (map (\<lambda>x. f x + M * g x) (concat (map (\<lambda>d. filter (\<lambda>c. g c = d) R) [0..<n])))"
proof (induction n)
  case 0
  show ?case by simp
next
  case (Suc n)
  let ?A = "concat (map (\<lambda>d. filter (\<lambda>c. g c = d) R) [0..<n])"
  let ?B = "filter (\<lambda>c. g c = n) R"
  have "sorted (map f ?B)"
    using assms(1) by (simp add: sorted_wrt_map sorted_wrt_filter)
  then have sb: "sorted (map (\<lambda>x. f x + M * g x) ?B)"
    by (induction R) (auto simp: sorted_wrt_map)
  have cross: "f a + M * g a \<le> f b + M * g b" if "a \<in> set ?A" "b \<in> set ?B" for a b
  proof -
    have "g a < n" "g b = n" using that by auto
    then have "M * (g a + 1) \<le> M * g b" by (intro mult_le_mono2) simp
    moreover have "f a < M" by (rule assms(2))
    ultimately show ?thesis by simp
  qed
  show ?case
    using Suc sb cross by (simp add: sorted_append)
qed

text \<open>The value of the \<open>k\<close> lowest decimal digits of a count: what \<open>k\<close> passes sort by.\<close>

definition radix_key :: "(byte \<Rightarrow> u32) \<Rightarrow> nat \<Rightarrow> byte \<Rightarrow> nat" where
  "radix_key cf k c = unat (cf c) mod 10 ^ k"

lemma radix_key_Suc:
  "radix_key cf (Suc k) c = radix_key cf k c + 10 ^ k * radix_digit cf k c"
proof -
  have "unat (cf c) mod (10 ^ k * 10) =
        10 ^ k * (unat (cf c) div 10 ^ k mod 10) + unat (cf c) mod 10 ^ k"
    by (rule mod_mult2_eq)
  then show ?thesis by (simp add: radix_key_def radix_digit_def mult.commute)
qed

lemma radix_invariant:
  "sorted (map (radix_key cf k) (radix_sorted cf k xs))
   \<and> (\<forall>a. filter (\<lambda>c. radix_key cf k c = a) (radix_sorted cf k xs) =
            filter (\<lambda>c. radix_key cf k c = a) xs)"
proof (induction k)
  case 0
  have "sorted (map (\<lambda>a. 0::nat) xs)" by (induction xs) auto
  then show ?case by (simp add: radix_key_def)
next
  case (Suc k)
  let ?R = "radix_sorted cf k xs"
  from Suc have sR: "sorted (map (radix_key cf k) ?R)"
    and fR: "\<And>a. filter (\<lambda>c. radix_key cf k c = a) ?R = filter (\<lambda>c. radix_key cf k c = a) xs"
    by simp_all
  have lt: "radix_key cf k x < 10 ^ k" for x by (simp add: radix_key_def)
  have 1: "sorted (map (radix_key cf (Suc k)) (radix_sorted cf (Suc k) xs))"
    using sorted_buckets [OF sR lt, of "radix_digit cf k" 10]
    by (simp add: radix_sorted_Suc stable_by_digit_def radix_key_Suc [abs_def])
  have 2: "filter (\<lambda>c. radix_key cf (Suc k) c = a) (radix_sorted cf (Suc k) xs) =
           filter (\<lambda>c. radix_key cf (Suc k) c = a) xs" for a
  proof -
    let ?P = "\<lambda>c. radix_key cf (Suc k) c = a"
    have both: "radix_digit cf k c = a div 10 ^ k \<and> radix_key cf k c = a mod 10 ^ k"
      if "?P c" for c
    proof -
      have a: "a = radix_key cf k c + 10 ^ k * radix_digit cf k c"
        using that by (simp add: radix_key_Suc)
      show ?thesis unfolding a using lt [of c] by simp
    qed
    have dig: "\<forall>x\<in>set (filter ?P ?R). radix_digit cf k x = a div 10 ^ k"
      using both by simp
    have imp: "?P c \<Longrightarrow> radix_key cf k c = a mod 10 ^ k" for c
      using both by simp
    have narrow: "filter ?P ys = filter ?P (filter (\<lambda>c. radix_key cf k c = a mod 10 ^ k) ys)" for ys
      using imp by (induction ys) auto
    have "filter ?P (radix_sorted cf (Suc k) xs) = stable_by_digit (radix_digit cf k) (filter ?P ?R)"
      by (simp add: radix_sorted_Suc filter_stable_by_digit)
    also have "\<dots> = filter ?P ?R"
    proof (cases "filter ?P ?R = []")
      case True
      then show ?thesis by (simp add: stable_by_digit_def)
    next
      case False
      then obtain x where "x \<in> set (filter ?P ?R)" by (cases "filter ?P ?R") auto
      then have "a div 10 ^ k < 10"
        using dig radix_digit_less [of cf k x] by auto
      then show ?thesis using dig by (intro stable_by_digit_same_digit)
    qed
    also have "\<dots> = filter ?P (filter (\<lambda>c. radix_key cf k c = a mod 10 ^ k) ?R)"
      by (rule narrow)
    also have "\<dots> = filter ?P (filter (\<lambda>c. radix_key cf k c = a mod 10 ^ k) xs)"
      by (simp only: fR)
    also have "\<dots> = filter ?P xs" by (rule narrow [symmetric])
    finally show ?thesis .
  qed
  from 1 2 show ?case by blast
qed


lemma radix_sorted_stable_sort:
  assumes "\<forall>c\<in>set xs. unat (cf c) < 10 ^ k"
  shows "sorted (map (\<lambda>c. unat (cf c)) (radix_sorted cf k xs))"
    and "filter (\<lambda>c. unat (cf c) = a) (radix_sorted cf k xs) = filter (\<lambda>c. unat (cf c) = a) xs"
proof -
  have key: "radix_key cf k c = unat (cf c)" if "c \<in> set xs" for c
    using that assms by (simp add: radix_key_def)
  have eq: "map (radix_key cf k) (radix_sorted cf k xs) = map (\<lambda>c. unat (cf c)) (radix_sorted cf k xs)"
    by (rule map_cong) (simp_all add: key)
  have "sorted (map (radix_key cf k) (radix_sorted cf k xs))"
    using radix_invariant [of cf k xs] by blast
  then show "sorted (map (\<lambda>c. unat (cf c)) (radix_sorted cf k xs))"
    unfolding eq .
  have "filter (\<lambda>c. unat (cf c) = a) (radix_sorted cf k xs) =
        filter (\<lambda>c. radix_key cf k c = a) (radix_sorted cf k xs)"
    by (rule filter_cong) (simp_all add: key)
  also have "\<dots> = filter (\<lambda>c. radix_key cf k c = a) xs"
    using radix_invariant [of cf k xs] by blast
  also have "\<dots> = filter (\<lambda>c. unat (cf c) = a) xs"
    by (rule filter_cong) (simp_all add: key)
  finally show "filter (\<lambda>c. unat (cf c) = a) (radix_sorted cf k xs) =
      filter (\<lambda>c. unat (cf c) = a) xs" .
qed

lemma radix_sorted_id:
  assumes "sorted (map (\<lambda>c. unat (cf c)) xs)" and "\<forall>c\<in>set xs. unat (cf c) < 10 ^ k"
  shows "radix_sorted cf k xs = xs"
proof (rule stable_unique)
  show "sorted (map (\<lambda>c. unat (cf c)) (radix_sorted cf k xs))"
    by (rule radix_sorted_stable_sort(1) [OF assms(2)])
  show "sorted (map (\<lambda>c. unat (cf c)) xs)" by (rule assms(1))
  show "filter (\<lambda>c. unat (cf c) = a) (radix_sorted cf k xs) = filter (\<lambda>c. unat (cf c) = a) xs" for a
    by (rule radix_sorted_stable_sort(2) [OF assms(2)])
qed

lemma ceil_log10_bound: "n \<le> 10 ^ ceil_log10 n"
proof (induction n rule: ceil_log10.induct)
  case (1 n)
  show ?case
  proof (cases "n \<le> 1")
    case True
    then show ?thesis by (simp add: ceil_log10.simps)
  next
    case False
    then have "(n + 9) div 10 \<le> 10 ^ ceil_log10 ((n + 9) div 10)" using 1 by simp
    then have "n \<le> 10 * 10 ^ ceil_log10 ((n + 9) div 10)" by linarith
    then show ?thesis using False by (subst ceil_log10.simps) simp
  qed
qed

lemma sort_chars_leaves_sorted:
  assumes "char_frequency cd = cf" and "max_freq cd = m"
    and "sorted S" and "distinct S" and "set S = {c. cf c \<noteq> 0}"
    and "sorted (map (\<lambda>c. unat (cf c)) S)"
    and "\<forall>c\<in>set S. unat (cf c) < 10 ^ ceil_log10 (unat m)"
  shows "sorted_leaf_nodes (sort_chars cd) = map (\<lambda>c. Leaf c (cf c)) S @ [Leaf 0 LAST_NODE]"
  using sort_chars_leaves [OF assms(1-5)] radix_sorted_id [OF assms(6,7)] by simp

section \<open>The codes that \<open>gen_codes\<close> assigns\<close>

text \<open>
  The first three calls of \<open>huffman_encode\<close>: \<open>count_chars\<close>, \<open>huff_tree\<close>, \<open>gen_codes\<close>, and
  the table \<open>codes\<close> they leave in the codec.
\<close>

definition encoder_codes :: "tie_break \<Rightarrow> (byte \<Rightarrow> code) \<Rightarrow> byte list \<Rightarrow> error + (byte \<Rightarrow> code)" where
  "encoder_codes tie garbage bufin =
     (case huff_tree tie (count_chars bufin (new_codec garbage)) of
        Inl e \<Rightarrow> Inl e
      | Inr codec1 \<Rightarrow> (case gen_codes codec1 of Inl e \<Rightarrow> Inl e | Inr codec2 \<Rightarrow> Inr (codes codec2)))"

definition extend_code :: "code \<Rightarrow> bool \<Rightarrow> code" where
  "extend_code c b = \<lparr>length_c = length_c c + 1, value_c = push_bit 1 (value_c c) OR of_bool b\<rparr>"

definition code_after :: "code \<Rightarrow> bool list \<Rightarrow> code" where
  "code_after cur bs = foldl extend_code cur bs"

definition code_bits :: "code \<Rightarrow> bool list" where
  "code_bits c =
     map (\<lambda>i. bit (value_c c) (nat (length_c c) - 1 - i)) [0..<nat (length_c c)]"

lemma code_after_simps [simp]:
  "code_after cur [] = cur"
  "code_after cur (b # bs) = code_after (extend_code cur b) bs"
  "code_after cur (bs @ [b]) = extend_code (code_after cur bs) b"
  by (simp_all add: code_after_def)

lemma gen_codes_from_spec:
  "distinct (leaf_chars t) \<Longrightarrow>
   gen_codes_from t cur cs =
     (\<lambda>x. if x \<in> set (leaf_chars t) then code_after cur (path t x) else cs x)"
proof (induction t arbitrary: cur cs)
  case (Leaf c n)
  show ?case by (auto simp: fun_eq_iff)
next
  case (Internal n l r)
  have dl: "distinct (leaf_chars l)" and dr: "distinct (leaf_chars r)"
    and dis: "set (leaf_chars l) \<inter> set (leaf_chars r) = {}"
    using Internal.prems by simp_all
  have c1: "cur\<lparr>length_c := length_c cur + 1, value_c := push_bit 1 (value_c cur)\<rparr> =
            extend_code cur False"
    by (simp add: extend_code_def)
  have c2: "(extend_code cur False)\<lparr>value_c := value_c (extend_code cur False) OR 1\<rparr> =
            extend_code cur True"
    by (simp add: extend_code_def)
  show ?case
    unfolding gen_codes_from.simps Let_def c1 c2 Internal.IH(1) [OF dl] Internal.IH(2) [OF dr]
    using dis by (auto simp: fun_eq_iff)
qed

lemma length_c_code_after: "length_c (code_after cur bs) = length_c cur + int (length bs)"
  by (induction bs arbitrary: cur) (simp_all add: extend_code_def)

lemma bit_value_code_after:
  "bit (value_c (code_after \<lparr>length_c = 0, value_c = 0\<rparr> bs)) m \<longleftrightarrow>
     m < length bs \<and> m < 32 \<and> bs ! (length bs - 1 - m)"
proof (induction bs arbitrary: m rule: rev_induct)
  case Nil
  show ?case by simp
next
  case (snoc b bs)
  let ?v = "value_c (code_after \<lparr>length_c = 0, value_c = 0\<rparr> bs)"
  show ?case
  proof (cases m)
    case 0
    then show ?thesis by (simp add: extend_code_def bit_0 even_or_iff)
  next
    case (Suc m')
    have sh: "bit (push_bit 1 ?v) (Suc m') \<longleftrightarrow> Suc m' < 32 \<and> bit ?v m'"
      unfolding bit_push_bit_iff by (auto simp: possible_bit_word)
    have ob: "\<not> bit (of_bool b :: u32) (Suc m')" by (simp add: bit_of_bool_iff)
    have "bit (value_c (code_after \<lparr>length_c = 0, value_c = 0\<rparr> (bs @ [b]))) (Suc m') \<longleftrightarrow>
          Suc m' < 32 \<and> bit ?v m'"
      unfolding code_after_simps extend_code_def using sh ob by (simp add: bit_or_iff)
    also have "\<dots> \<longleftrightarrow> Suc m' < length (bs @ [b]) \<and> Suc m' < 32 \<and>
        (bs @ [b]) ! (length (bs @ [b]) - 1 - Suc m')"
      unfolding snoc.IH by (auto simp: nth_append)
    finally show ?thesis unfolding Suc .
  qed
qed

lemma code_bits_code_after:
  "code_bits (code_after \<lparr>length_c = 0, value_c = 0\<rparr> bs) =
     map (\<lambda>i. length bs - 1 - i < 32 \<and> bs ! i) [0..<length bs]"
  by (rule nth_equalityI)
    (auto simp: code_bits_def length_c_code_after bit_value_code_after)

lemma code_bits_short:
  "length bs \<le> 32 \<Longrightarrow> code_bits (code_after \<lparr>length_c = 0, value_c = 0\<rparr> bs) = bs"
  unfolding code_bits_code_after by (rule nth_equalityI) auto

lemma path_not_prefix:
  assumes "distinct (leaf_chars t)" "x \<in> set (leaf_chars t)" "y \<in> set (leaf_chars t)" "x \<noteq> y"
  shows "\<not> prefix (path t x) (path t y)"
  using assms
proof (induction t)
  case (Leaf c n)
  then show ?case by simp
next
  case (Internal n l r)
  then show ?case by auto
qed

section \<open>Inputs made of blocks of equal bytes\<close>

text \<open>
  \<open>blocks [(c1, n1), (c2, n2), ...]\<close> is the input made of \<open>n1\<close> bytes \<open>c1\<close>, then \<open>n2\<close> bytes
  \<open>c2\<close>, and so on.
\<close>

fun blocks :: "(byte \<times> nat) list \<Rightarrow> byte list" where
  "blocks [] = []"
| "blocks ((c, n) # fs) = replicate n c @ blocks fs"

lemma count_list_replicate: "count_list (replicate n a) c = (if a = c then n else 0)"
  by (induction n) auto

lemma length_blocks: "length (blocks fs) = sum_list (map snd fs)"
  by (induction fs) auto

lemma count_list_blocks:
  "distinct (map fst fs) \<Longrightarrow>
   count_list (blocks fs) c = (case map_of fs c of None \<Rightarrow> 0 | Some n \<Rightarrow> n)"
proof (induction fs)
  case Nil
  show ?case by simp
next
  case (Cons p fs)
  obtain a n where p: "p = (a, n)" by (cases p)
  have "map_of fs a = None" using Cons.prems p by (simp add: map_of_eq_None_iff)
  then show ?case using Cons p by (simp add: count_list_replicate)
qed

lemma count_list_blocks_in:
  "distinct (map fst fs) \<Longrightarrow> (c, n) \<in> set fs \<Longrightarrow> count_list (blocks fs) c = n"
  by (simp add: count_list_blocks)

lemma count_list_blocks_out:
  "c \<notin> fst ` set fs \<Longrightarrow> count_list (blocks fs) c = 0"
  by (induction fs) (auto simp: count_list_replicate)

lemma codes_count_chars [simp]: "codes (count_chars b cd) = codes cd"
  by (induction b rule: rev_induct) (simp_all add: count_chars_Nil count_chars_snoc count_step_def Let_def)

lemma char_frequency_fresh: "char_frequency (count_chars b (new_codec g)) = freq_of b"
  by (simp add: fun_eq_iff char_frequency_count_chars freq_of_def new_codec_def)

lemma Max_count_list_blocks:
  assumes d: "distinct (map fst fs)" and ne: "fs \<noteq> []" and s: "sorted (map snd fs)"
  shows "Max (range (count_list (blocks fs))) = snd (last fs)"
proof (rule Max_eqI)
  show "finite (range (count_list (blocks fs)))" by simp
  have le: "n \<le> snd (last fs)" if "n \<in> set (map snd fs)" for n
  proof -
    from that obtain i where i: "i < length fs" "map snd fs ! i = n"
      by (auto simp: in_set_conv_nth)
    have "map snd fs ! i \<le> map snd fs ! (length fs - 1)"
      using i ne by (intro sorted_nth_mono [OF s]) auto
    then show ?thesis using i ne by (simp add: last_conv_nth)
  qed
  show "y \<le> snd (last fs)" if "y \<in> range (count_list (blocks fs))" for y
  proof -
    from that obtain c where y: "y = count_list (blocks fs) c" by auto
    show ?thesis
    proof (cases "map_of fs c")
      case None
      then show ?thesis using y d by (simp add: count_list_blocks)
    next
      case (Some n)
      then have "(c, n) \<in> set fs" by (rule map_of_SomeD)
      then have "n \<in> set (map snd fs)" by force
      then show ?thesis using le y d Some by (simp add: count_list_blocks)
    qed
  qed
  have "last fs \<in> set fs" using ne by simp
  then have "count_list (blocks fs) (fst (last fs)) = snd (last fs)"
    using count_list_blocks_in [OF d, of "fst (last fs)" "snd (last fs)"] by simp
  then show "snd (last fs) \<in> range (count_list (blocks fs))" by (metis rangeI)
qed


lemma sorted_le_last:
  assumes "sorted (map snd fs)" and "(c, n) \<in> set fs"
  shows "(n::nat) \<le> snd (last fs)"
proof -
  have ne: "fs \<noteq> []" using assms(2) by auto
  from assms(2) obtain i where i: "i < length fs" "fs ! i = (c, n)"
    by (auto simp: in_set_conv_nth)
  have "map snd fs ! i \<le> map snd fs ! (length fs - 1)"
    using i(1) by (intro sorted_nth_mono [OF assms(1)]) auto
  then show ?thesis using i ne by (simp add: last_conv_nth)
qed

lemma set_blocks: "\<forall>p\<in>set fs. 0 < snd p \<Longrightarrow> set (blocks fs) = fst ` set fs"
proof (induction fs)
  case Nil
  show ?case by simp
next
  case (Cons p fs)
  have "0 < snd p" using Cons.prems by simp
  then have "set (replicate (snd p) (fst p)) = {fst p}" by simp
  moreover have "set (blocks fs) = fst ` set fs" using Cons by simp
  ultimately show ?case by (cases p) simp
qed

lemma leaves_of_blocks:
  assumes d: "distinct (map fst fs)" and so: "sorted (map fst fs)" and ne: "fs \<noteq> []"
    and s: "sorted (map snd fs)" and pos: "\<forall>p\<in>set fs. 0 < snd p"
    and len: "sum_list (map snd fs) < 2 ^ 32"
    and top: "snd (last fs) < 10 ^ ceil_log10 (snd (last fs))"
  shows "sorted_leaf_nodes (sort_chars (count_chars (blocks fs) (new_codec g))) =
           map (\<lambda>p. Leaf (fst p) (of_nat (snd p))) fs @ [Leaf 0 LAST_NODE]"
proof -
  define b where "b = blocks fs"
  define cd where "cd = count_chars b (new_codec g)"
  have lb: "length b < 2 ^ 32" using len by (simp add: b_def length_blocks)
  have cf: "char_frequency cd = freq_of b" unfolding cd_def by (rule char_frequency_fresh)
  have "unat (max_freq cd) = Max (range (count_list b))"
    unfolding cd_def by (rule unat_max_freq_fresh [OF lb]) (simp add: new_codec_def)
  then have m: "unat (max_freq cd) = snd (last fs)"
    unfolding b_def Max_count_list_blocks [OF d ne s] .
  have cnt: "count_list b (fst p) = snd p" if "p \<in> set fs" for p
    unfolding b_def using count_list_blocks_in [OF d, of "fst p" "snd p"] that by simp
  have val: "unat (freq_of b (fst p)) = snd p" if "p \<in> set fs" for p
    using cnt [OF that] by (simp add: unat_freq_of [OF lb])
  have "map (\<lambda>p. unat (freq_of b (fst p))) fs = map snd fs"
    by (rule map_cong [OF refl]) (rule val)
  then have eqm: "map (\<lambda>c. unat (freq_of b c)) (map fst fs) = map snd fs"
    by (simp add: comp_def)
  have "map (\<lambda>p. Leaf (fst p) (freq_of b (fst p))) fs = map (\<lambda>p. Leaf (fst p) (of_nat (snd p))) fs"
    by (rule map_cong [OF refl]) (simp add: freq_of_def cnt)
  then have eql: "map (\<lambda>c. Leaf c (freq_of b c)) (map fst fs) =
      map (\<lambda>p. Leaf (fst p) (of_nat (snd p))) fs"
    by (simp add: comp_def)
  have supp: "set (map fst fs) = {c. freq_of b c \<noteq> 0}"
    using support_freq_of [OF lb] set_blocks [OF pos] by (simp add: b_def)
  have bound: "\<forall>c\<in>set (map fst fs). unat (freq_of b c) < 10 ^ ceil_log10 (unat (max_freq cd))"
  proof
    fix c assume "c \<in> set (map fst fs)"
    then obtain p where p: "p \<in> set fs" "c = fst p" by auto
    then have "(fst p, snd p) \<in> set fs" by simp
    then have "snd p \<le> snd (last fs)" by (rule sorted_le_last [OF s])
    then have "snd p < 10 ^ ceil_log10 (snd (last fs))" using top by linarith
    then show "unat (freq_of b c) < 10 ^ ceil_log10 (unat (max_freq cd))"
      unfolding m p(2) val [OF p(1)] .
  qed
  have sm: "sorted (map (\<lambda>c. unat (freq_of b c)) (map fst fs))"
    unfolding eqm by (rule s)
  have "sorted_leaf_nodes (sort_chars cd) =
      map (\<lambda>c. Leaf c (freq_of b c)) (map fst fs) @ [Leaf 0 LAST_NODE]"
    by (rule sort_chars_leaves_sorted [OF cf refl so d supp sm bound])
  then have "sorted_leaf_nodes (sort_chars cd) =
      map (\<lambda>p. Leaf (fst p) (of_nat (snd p))) fs @ [Leaf 0 LAST_NODE]"
    unfolding eql .
  then show ?thesis unfolding cd_def b_def .
qed

subsection \<open>Steps of the tree builder with at most one node in the queue\<close>

lemma huff_loop_first_two:
  assumes "i + 2 < length leaves" and "count (leaves ! (i + 1)) \<noteq> LAST_NODE"
  shows "huff_loop tie leaves i [] =
         huff_loop tie leaves (i + 2) [build_node (leaves ! i) (leaves ! (i + 1))]"
  using assms by (subst huff_loop.simps) (simp add: get_min_node_def pq_push_def)

lemma pq_singleton [simp]: "pq_top tie [t] = t" "pq_pop tie [t] = []"
  by (simp_all add: pq_top_def pq_pop_def pq_index_def pq_candidates_def)

lemma huff_loop_leaf_then_queue:
  assumes "i + 1 < length leaves" and "count (leaves ! i) < count t"
    and "\<not> count (leaves ! (i + 1)) < count t"
  shows "huff_loop tie leaves i [t] = huff_loop tie leaves (i + 1) [build_node (leaves ! i) t]"
  using assms by (subst huff_loop.simps) (simp add: get_min_node_def pq_push_def)

lemma huff_loop_queue_then_leaf:
  assumes "i + 1 < length leaves" and "\<not> count (leaves ! i) < count t"
    and "count (leaves ! i) \<noteq> LAST_NODE"
  shows "huff_loop tie leaves i [t] = huff_loop tie leaves (i + 1) [build_node t (leaves ! i)]"
  using assms by (subst huff_loop.simps) (simp add: get_min_node_def pq_push_def)

lemma huff_loop_last:
  assumes "i < length leaves" and "count (leaves ! i) = LAST_NODE"
  shows "huff_loop tie leaves i [t] = Inr t"
  using assms by (subst huff_loop.simps) (simp add: get_min_node_def LAST_NODE_def not_less)

section \<open>Codes longer than 32 bits\<close>

text \<open>
  An input of 34 byte values whose counts are the Fibonacci numbers 1, 2, 3, 5, ...,
  9227465 (24157815 bytes in all), and the tree \<open>huff_tree\<close> builds from it: every
  internal node has a leaf and the previous internal node as children, so the leaves of
  the two rarest bytes are 33 edges below the root.
\<close>

definition fib_blocks :: "(byte \<times> nat) list" where
  "fib_blocks =
     [(0, 1), (1, 2), (2, 3), (3, 5), (4, 8), (5, 13), (6, 21), (7, 34), (8, 55), (9, 89), (10,
      144), (11, 233), (12, 377), (13, 610), (14, 987), (15, 1597), (16, 2584), (17, 4181), (18,
      6765), (19, 10946), (20, 17711), (21, 28657), (22, 46368), (23, 75025), (24, 121393), (25,
      196418), (26, 317811), (27, 514229), (28, 832040), (29, 1346269), (30, 2178309), (31,
      3524578), (32, 5702887), (33, 9227465)]"

definition fib_tree :: node where
  "fib_tree =
     Internal 24157815 (Leaf 33 9227465) (Internal 14930350 (Leaf 32 5702887) (Internal 9227463
     (Leaf 31 3524578) (Internal 5702885 (Leaf 30 2178309) (Internal 3524576 (Leaf 29 1346269)
     (Internal 2178307 (Leaf 28 832040) (Internal 1346267 (Leaf 27 514229) (Internal 832038
     (Leaf 26 317811) (Internal 514227 (Leaf 25 196418) (Internal 317809 (Leaf 24 121393)
     (Internal 196416 (Leaf 23 75025) (Internal 121391 (Leaf 22 46368) (Internal 75023 (Leaf 21
     28657) (Internal 46366 (Leaf 20 17711) (Internal 28655 (Leaf 19 10946) (Internal 17709
     (Leaf 18 6765) (Internal 10944 (Leaf 17 4181) (Internal 6763 (Leaf 16 2584) (Internal 4179
     (Leaf 15 1597) (Internal 2582 (Leaf 14 987) (Internal 1595 (Leaf 13 610) (Internal 985
     (Leaf 12 377) (Internal 608 (Leaf 11 233) (Internal 375 (Leaf 10 144) (Internal 231 (Leaf
     9 89) (Internal 142 (Leaf 8 55) (Internal 87 (Leaf 7 34) (Internal 53 (Leaf 6 21)
     (Internal 32 (Leaf 5 13) (Internal 19 (Leaf 4 8) (Internal 11 (Leaf 3 5) (Internal 6
     (Internal 3 (Leaf 0 1) (Leaf 1 2)) (Leaf 2 3))))))))))))))))))))))))))))))))"

lemma fib_leaves:
  "sorted_leaf_nodes (sort_chars (count_chars (blocks fib_blocks) (new_codec g))) =
     map (\<lambda>p. Leaf (fst p) (of_nat (snd p))) fib_blocks @ [Leaf 0 LAST_NODE]"
  by (rule leaves_of_blocks) (simp_all add: fib_blocks_def ceil_log10.simps)

lemma fib_huff_loop:
  "huff_loop tie (map (\<lambda>p. Leaf (fst p) (of_nat (snd p))) fib_blocks @ [Leaf 0 LAST_NODE]) 0 [] =
     Inr fib_tree"
  unfolding fib_blocks_def fib_tree_def
  apply (subst huff_loop_first_two [where i = 0, simplified])
    apply (simp_all add: LAST_NODE_def build_node_def)
  apply (simp add: huff_loop_leaf_then_queue huff_loop_queue_then_leaf huff_loop_last
      LAST_NODE_def build_node_def)
  done

lemma encoder_codes_tree:
  assumes "huff_loop tie (sorted_leaf_nodes (sort_chars (count_chars b (new_codec g)))) 0 [] = Inr t"
  shows "encoder_codes tie g b = Inr (gen_codes_from t \<lparr>length_c = 0, value_c = 0\<rparr> g)"
  using assms by (simp add: encoder_codes_def huff_tree_def Let_def gen_codes_def new_codec_def)

lemma fib_codes:
  "encoder_codes tie g (blocks fib_blocks) =
     Inr (gen_codes_from fib_tree \<lparr>length_c = 0, value_c = 0\<rparr> g)"
  by (rule encoder_codes_tree) (simp only: fib_leaves fib_huff_loop)

lemma fib_tree_distinct: "distinct (leaf_chars fib_tree)"
  by (simp add: fib_tree_def)

lemma fib_code_33:
  "gen_codes_from fib_tree \<lparr>length_c = 0, value_c = 0\<rparr> g 33 = \<lparr>length_c = 1, value_c = 0\<rparr>"
  unfolding gen_codes_from_spec [OF fib_tree_distinct]
  by (simp add: fib_tree_def extend_code_def)

lemma fib_code_0:
  "gen_codes_from fib_tree \<lparr>length_c = 0, value_c = 0\<rparr> g 0 =
     \<lparr>length_c = 33, value_c = 0xFFFFFFFC\<rparr>"
  unfolding gen_codes_from_spec [OF fib_tree_distinct]
  by (simp add: fib_tree_def extend_code_def)

lemma prefix_singleton: "prefix [a] ys \<longleftrightarrow> ys \<noteq> [] \<and> hd ys = a"
  by (cases ys) auto

text \<open>
  C9 at the input \<open>blocks fib_blocks\<close>: the encoder builds its tree and its codes, whatever
  the priority queue does on ties and whatever \<open>codes\<close> held before. Byte 33 (the most
  frequent) gets the code of length 1 and value 0, the bit string \<open>0\<close>. Byte 0 (one
  occurrence) is 33 edges below the root on the way \<open>1 ... 1 0 0\<close> (31 ones): \<open>gen_codes\<close>
  shifts the first bit out of the 32-bit \<open>value\<close>, and leaves length 33 and value
  \<open>0xFFFFFFFC\<close>, which as a bit string of 33 bits begins with 0. The code of byte 33 is a
  prefix of the code of byte 0.
\<close>

theorem fib_codes_not_prefix_free:
  "\<exists>cs. encoder_codes tie g (blocks fib_blocks) = Inr cs
        \<and> count_list (blocks fib_blocks) 33 = 9227465
        \<and> count_list (blocks fib_blocks) 0 = 1
        \<and> cs 33 = \<lparr>length_c = 1, value_c = 0\<rparr>
        \<and> cs 0 = \<lparr>length_c = 33, value_c = 0xFFFFFFFC\<rparr>
        \<and> code_bits (cs 33) = [False]
        \<and> prefix (code_bits (cs 33)) (code_bits (cs 0))"
proof -
  let ?cs = "gen_codes_from fib_tree \<lparr>length_c = 0, value_c = 0\<rparr> g"
  have d: "distinct (map fst fib_blocks)" by (simp add: fib_blocks_def)
  have 1: "count_list (blocks fib_blocks) 33 = 9227465"
    by (rule count_list_blocks_in [OF d]) (simp add: fib_blocks_def)
  have 2: "count_list (blocks fib_blocks) 0 = 1"
    by (rule count_list_blocks_in [OF d]) (simp add: fib_blocks_def)
  have 3: "code_bits (?cs 33) = [False]"
    unfolding fib_code_33 by (simp add: code_bits_def)
  have "hd (code_bits (?cs 0)) = False" "code_bits (?cs 0) \<noteq> []"
    unfolding fib_code_0 by (simp_all add: code_bits_def hd_map upt_rec [of 0])
  then have 4: "prefix (code_bits (?cs 33)) (code_bits (?cs 0))"
    unfolding 3 prefix_singleton by simp
  show ?thesis
    using fib_codes [of tie g] 1 2 3 4 fib_code_33 [of g] fib_code_0 [of g] by blast
qed

subsection \<open>Codes of at most 32 bits are prefix-free\<close>

lemma encoder_codes_of_input:
  assumes "b \<noteq> []" and "length b < 2 ^ 32"
  shows "\<exists>h. encoder_codes tie g b = Inr (gen_codes_from h \<lparr>length_c = 0, value_c = 0\<rparr> g)
           \<and> set (leaf_chars h) = set b \<and> distinct (leaf_chars h)"
proof -
  let ?cd0 = "count_chars b (new_codec g)"
  have cf: "char_frequency ?cd0 = freq_of b" by (rule char_frequency_fresh)
  from huff_tree_of_input [OF cf assms, of tie]
  obtain h where h: "huff_tree tie ?cd0 = Inr ((sort_chars ?cd0)\<lparr>head := Some h\<rparr>)"
    and s: "set (leaf_chars h) = set b" and d: "distinct (leaf_chars h)"
    by blast
  have "encoder_codes tie g b = Inr (gen_codes_from h \<lparr>length_c = 0, value_c = 0\<rparr> g)"
    unfolding encoder_codes_def h by (simp add: gen_codes_def new_codec_def)
  then show ?thesis using s d by blast
qed

lemma codes_prefix_free_upto_32:
  assumes "b \<noteq> []" and "length b < 2 ^ 32" and cs: "encoder_codes tie g b = Inr cs"
    and short: "\<forall>c\<in>set b. length_c (cs c) \<le> 32"
    and xy: "x \<in> set b" "y \<in> set b" "x \<noteq> y"
  shows "\<not> prefix (code_bits (cs x)) (code_bits (cs y))"
proof -
  from encoder_codes_of_input [OF assms(1,2), of tie g] cs
  obtain h where h: "cs = gen_codes_from h \<lparr>length_c = 0, value_c = 0\<rparr> g"
    and s: "set (leaf_chars h) = set b" and d: "distinct (leaf_chars h)"
    by auto
  have val: "cs c = code_after \<lparr>length_c = 0, value_c = 0\<rparr> (path h c)" if "c \<in> set b" for c
    unfolding h gen_codes_from_spec [OF d] using that s by simp
  have bits: "code_bits (cs c) = path h c" if "c \<in> set b" for c
  proof -
    have "length_c (cs c) \<le> 32" using short that by blast
    then have "length (path h c) \<le> 32"
      unfolding val [OF that] length_c_code_after by simp
    then show ?thesis unfolding val [OF that] by (rule code_bits_short)
  qed
  have "\<not> prefix (path h x) (path h y)"
    using d xy unfolding s [symmetric] by (rule path_not_prefix)
  then show ?thesis unfolding bits [OF xy(1)] bits [OF xy(2)] .
qed

section \<open>The header of the encoded buffer\<close>

definition word_at :: "byte list \<Rightarrow> nat \<Rightarrow> u32" where
  "word_at buf pos =
     ucast (buf ! pos) OR push_bit 8 (ucast (buf ! (pos + 1))) OR
     push_bit 16 (ucast (buf ! (pos + 2))) OR push_bit 24 (ucast (buf ! (pos + 3)))"

definition header_sum :: "byte list \<Rightarrow> u32" where
  "header_sum bufin = sum_list (map (\<lambda>i. word_at bufin (4 * i)) [0..<256])"

definition le_bytes :: "u32 \<Rightarrow> byte list" where
  "le_bytes w = [ucast w, ucast (drop_bit 8 w), ucast (drop_bit 16 w), ucast (drop_bit 24 w)]"

definition header_bytes :: "(byte \<Rightarrow> u32) \<Rightarrow> byte list" where
  "header_bytes cf = concat (map (\<lambda>i. le_bytes (cf (of_nat i))) [0..<256])"

lemma load_u32_word_at:
  "load_u32 buf pos = (if length buf < pos + 4 then Inl OutOfBounds else Inr (word_at buf pos))"
  by (simp add: load_u32_def word_at_def)

lemma read_char_freq_loop_upt:
  assumes "b \<le> 256" and "rs_ptr st = pos + 4 * a"
  shows "read_char_freq_loop bufin [a..<b] st =
     (if a < b \<and> length bufin < pos + 4 * b then Inl OutOfBounds
      else Inr \<lparr>rs_freq = (\<lambda>c. if a \<le> unat c \<and> unat c < b then word_at bufin (pos + 4 * unat c)
                               else rs_freq st c),
                rs_max = fold (\<lambda>i m. max m (word_at bufin (pos + 4 * i))) [a..<b] (rs_max st),
                rs_total = rs_total st + sum_list (map (\<lambda>i. word_at bufin (pos + 4 * i)) [a..<b]),
                rs_unique = rs_unique st +
                  of_nat (length (filter (\<lambda>i. word_at bufin (pos + 4 * i) \<noteq> 0) [a..<b])),
                rs_ptr = pos + 4 * (if a < b then b else a)\<rparr>)"
  using assms
proof (induction "b - a" arbitrary: a st)
  case 0
  then have ba: "b \<le> a" by simp
  then have "(\<lambda>c. if a \<le> unat c \<and> unat c < b then word_at bufin (pos + 4 * unat c)
                else rs_freq st c) = rs_freq st"
    by (auto simp: fun_eq_iff)
  then show ?case using ba 0(3) by simp
next
  case (Suc n)
  then have ab: "a < b" and n: "n = b - Suc a" by simp_all
  have up: "[a..<b] = a # [Suc a..<b]" using ab by (rule upt_conv_Cons)
  define w where "w = word_at bufin (pos + 4 * a)"
  define st1 where "st1 = \<lparr>rs_freq = (rs_freq st)(of_nat a := w),
             rs_max = (if w > rs_max st then w else rs_max st),
             rs_total = rs_total st + w,
             rs_unique = (if w > 0 then rs_unique st + 1 else rs_unique st),
             rs_ptr = rs_ptr st + 4\<rparr>"
  have ptr: "rs_ptr st1 = pos + 4 * Suc a" using Suc.prems(2) by (simp add: st1_def)
  note IH = Suc.hyps(1) [OF n Suc.prems(1) ptr]
  have a256: "a < 256" using ab Suc.prems(1) by simp
  have una: "unat (of_nat a :: byte) = a" using a256 by (rule unat_of_nat_byte)
  have ceq: "c = of_nat a \<longleftrightarrow> unat c = a" for c :: byte
    using una by (simp add: word_unat_eq_iff)
  have step: "read_char_freq_loop bufin [a..<b] st = read_char_freq_loop bufin [Suc a..<b] st1"
    if "\<not> length bufin < pos + 4 * a + 4"
    unfolding up st1_def w_def using that Suc.prems(2) by (simp add: load_u32_word_at)
  show ?case
  proof (cases "length bufin < pos + 4 * b")
    case True
    show ?thesis
    proof (cases "length bufin < pos + 4 * a + 4")
      case True
      then show ?thesis using ab \<open>length bufin < pos + 4 * b\<close> Suc.prems(2)
        unfolding up by (simp add: load_u32_word_at)
    next
      case False
      then have "Suc a < b" using True by (simp add: not_less)
      then show ?thesis unfolding step [OF False] IH using True ab by simp
    qed
  next
    case False
    then have ok: "\<not> length bufin < pos + 4 * a + 4" using ab by simp
    have mx: "rs_max st1 = max (rs_max st) w"
      by (auto simp: st1_def max_def not_less)
    have fr: "(\<lambda>c. if Suc a \<le> unat c \<and> unat c < b then word_at bufin (pos + 4 * unat c)
                  else rs_freq st1 c) =
              (\<lambda>c. if a \<le> unat c \<and> unat c < b then word_at bufin (pos + 4 * unat c)
                  else rs_freq st c)"
      using ab by (auto simp: fun_eq_iff ceq st1_def w_def)
    have un: "rs_unique st1 +
              of_nat (length (filter (\<lambda>i. word_at bufin (pos + 4 * i) \<noteq> 0) [Suc a..<b])) =
              rs_unique st + of_nat (length (filter (\<lambda>i. word_at bufin (pos + 4 * i) \<noteq> 0) (a # [Suc a..<b])))"
      by (simp add: word_greater_zero_iff st1_def w_def)
    have tot: "rs_total st1 + sum_list (map (\<lambda>i. word_at bufin (pos + 4 * i)) [Suc a..<b]) =
               rs_total st + sum_list (map (\<lambda>i. word_at bufin (pos + 4 * i)) (a # [Suc a..<b]))"
      by (simp add: st1_def w_def add.assoc)
    have mxf: "fold (\<lambda>i m. max m (word_at bufin (pos + 4 * i))) [Suc a..<b] (rs_max st1) =
               fold (\<lambda>i m. max m (word_at bufin (pos + 4 * i))) (a # [Suc a..<b]) (rs_max st)"
      by (simp add: mx w_def)
    have pt: "pos + 4 * (if Suc a < b then b else Suc a) = pos + 4 * b"
      using ab by auto
    have nb: "\<not> (Suc a < b \<and> length bufin < pos + 4 * b)" using False by simp
    have nb': "\<not> (a < b \<and> length bufin < pos + 4 * b)" using False by simp
    have pt': "pos + 4 * (if a < b then b else a) = pos + 4 * b" using ab by simp
    show ?thesis
      unfolding step [OF ok] IH if_not_P [OF nb] if_not_P [OF nb'] fr un tot mxf pt pt'
      unfolding up ..
  qed
qed

lemma read_char_freq_spec:
  "read_char_freq cd bufin 0 init =
     (if length bufin < 1024 then Inl OutOfBounds
      else Inr (cd\<lparr>char_frequency := (\<lambda>c. word_at bufin (4 * unat c)),
                     max_freq := fold (\<lambda>i m. max m (word_at bufin (4 * i))) [0..<256] 0\<rparr>,
                1024, init + header_sum bufin,
                of_nat (length (filter (\<lambda>i. word_at bufin (4 * i) \<noteq> 0) [0..<256]))))"
proof -
  let ?st = "\<lparr>rs_freq = char_frequency cd, rs_max = 0, rs_total = init, rs_unique = 0,
              rs_ptr = 0\<rparr>"
  have lt: "unat c < 256" for c :: byte
    using unsigned_less [of c, where 'a = nat] by simp
  have "read_char_freq_loop bufin [0..<256] ?st =
     (if length bufin < 1024 then Inl OutOfBounds
      else Inr \<lparr>rs_freq = (\<lambda>c. word_at bufin (4 * unat c)),
                rs_max = fold (\<lambda>i m. max m (word_at bufin (4 * i))) [0..<256] 0,
                rs_total = init + header_sum bufin,
                rs_unique = of_nat (length (filter (\<lambda>i. word_at bufin (4 * i) \<noteq> 0) [0..<256])),
                rs_ptr = 1024\<rparr>)"
    using read_char_freq_loop_upt [where b = 256 and a = 0 and pos = 0 and st = ?st and bufin = bufin]
    by (simp add: lt header_sum_def)
  then show ?thesis by (simp add: read_char_freq_def)
qed

lemma length_decode_loop:
  "decode_loop h buf cur n out opos cf u = Inr (out', opos', cf') \<Longrightarrow> length out' = length out"
proof (induction h buf cur n out opos cf u rule: decode_loop.induct)
  case (1 h buf cur n out opos cf u)
  show ?case
  proof (cases "0 < u")
    case False
    then show ?thesis using "1.prems" by (subst (asm) decode_loop.simps) simp
  next
    case True
    from "1.prems" obtain data cur1 where rd: "bitRead 1 buf cur = Inr (data, cur1)"
      using True by (subst (asm) decode_loop.simps) (auto split: sum.splits)
    define node1 where "node1 = (if internal_node n
         then (if (ucast data :: byte) = 0 then left n else right n) else n)"
    show ?thesis
    proof (cases "internal_node node1")
      case True
      have "decode_loop h buf cur n out opos cf u = decode_loop h buf cur1 node1 out opos cf u"
        using \<open>0 < u\<close> rd True by (subst decode_loop.simps) (simp add: node1_def Let_def)
      then have "decode_loop h buf cur1 node1 out opos cf u = Inr (out', opos', cf')"
        using "1.prems" by simp
      moreover have "\<not> \<not> internal_node node1" using True by simp
      ultimately show ?thesis
        using "1.IH"(2) [OF \<open>0 < u\<close> rd refl refl node1_def] by blast
    next
      case False
      define out1 where "out1 = out[opos := Some (character node1)]"
      define cf1 where "cf1 = cf(character node1 := cf (character node1) - 1)"
      define u1 where "u1 = (if cf1 (character node1) = 0 then u - 1 else u)"
      have ok: "\<not> length out \<le> opos"
        using \<open>0 < u\<close> rd False "1.prems"
        by (subst (asm) decode_loop.simps) (auto simp: node1_def Let_def split: if_splits)
      have "decode_loop h buf cur n out opos cf u = decode_loop h buf cur1 h out1 (opos + 1) cf1 u1"
        using \<open>0 < u\<close> rd False ok
        by (subst decode_loop.simps) (simp add: node1_def Let_def out1_def cf1_def u1_def)
      then have "decode_loop h buf cur1 h out1 (opos + 1) cf1 u1 = Inr (out', opos', cf')"
        using "1.prems" by simp
      from "1.IH"(1) [OF \<open>0 < u\<close> rd refl refl node1_def False ok out1_def cf1_def u1_def this]
      show ?thesis by (simp add: out1_def)
    qed
  qed
qed

lemma le_bytes_word:
  fixes w :: u32
  shows "ucast (ucast w :: byte) OR push_bit 8 (ucast (ucast (drop_bit 8 w) :: byte)) OR
         push_bit 16 (ucast (ucast (drop_bit 16 w) :: byte)) OR
         push_bit 24 (ucast (ucast (drop_bit 24 w) :: byte)) = w" (is "?L = w")
proof (rule bit_word_eqI)
  fix n assume "n < LENGTH(32)"
  then have n: "n < 32" by simp
  consider "n < 8" | "8 \<le> n" "n < 16" | "16 \<le> n" "n < 24" | "24 \<le> n" "n < 32"
    using n by linarith
  then show "bit ?L n = bit w n"
    by cases (auto simp: bit_simps)
qed

lemma length_le_bytes [simp]: "length (le_bytes w) = 4"
  by (simp add: le_bytes_def)

lemma word_at_le_bytes: "word_at (pre @ le_bytes w @ post) (length pre) = w"
  using le_bytes_word [of w] by (simp add: word_at_def le_bytes_def nth_append)

lemma length_concat_le_bytes: "length (concat (map (\<lambda>i. le_bytes (f i)) xs)) = 4 * length xs"
  by (induction xs) simp_all

lemma length_header_bytes [simp]: "length (header_bytes cf) = 1024"
  by (simp add: header_bytes_def length_concat_le_bytes)

lemma word_at_header_bytes:
  assumes "i < 256"
  shows "word_at (header_bytes cf @ rest) (4 * i) = cf (of_nat i)"
proof -
  have up: "[0..<256] = [0..<i] @ i # [Suc i..<256]"
    using assms by (metis upt_add_eq_append upt_conv_Cons le0 less_imp_le_nat add.left_neutral
        le_add_diff_inverse)
  let ?f = "\<lambda>i. le_bytes (cf (of_nat i))"
  have "header_bytes cf @ rest =
        concat (map ?f [0..<i]) @ le_bytes (cf (of_nat i)) @ (concat (map ?f [Suc i..<256]) @ rest)"
    unfolding header_bytes_def by (subst up) simp
  moreover have "length (concat (map ?f [0..<i])) = 4 * i"
    by (simp add: length_concat_le_bytes)
  ultimately show ?thesis
    using word_at_le_bytes [of "concat (map ?f [0..<i])" "cf (of_nat i)"
        "concat (map ?f [Suc i..<256]) @ rest"]
    by simp
qed

lemma word_at_header_bytes_byte: "word_at (header_bytes cf @ rest) (4 * unat (c :: byte)) = cf c"
proof -
  have "unat c < 256" using unsigned_less [of c, where 'a = nat] by simp
  then show ?thesis by (simp add: word_at_header_bytes)
qed

lemma upt_256_all_bytes: "map f [0..<256] = map (\<lambda>c. f (unat c)) all_bytes"
proof -
  have "map (\<lambda>c. f (unat c)) all_bytes = map (\<lambda>i. f (unat (of_nat i :: byte))) [0..<256]"
    by (simp add: all_bytes_def comp_def)
  also have "\<dots> = map f [0..<256]"
    by (rule map_cong [OF refl]) (simp add: unat_of_nat_byte)
  finally show ?thesis by simp
qed

lemma header_sum_header_bytes:
  "header_sum (header_bytes cf @ rest) = sum_list (map cf all_bytes)"
  unfolding header_sum_def upt_256_all_bytes by (simp add: word_at_header_bytes_byte)

lemma sum_list_freq_of: "sum_list (map (freq_of b) all_bytes) = of_nat (length b)"
proof -
  have "sum_list (map (freq_of b) all_bytes) = (\<Sum>c\<in>UNIV. freq_of b c)"
    using sum_list_distinct_conv_sum_set [OF distinct_all_bytes, of "freq_of b"] by simp
  also have "\<dots> = of_nat (\<Sum>c\<in>(UNIV::byte set). count_list b c)"
    by (simp add: freq_of_def)
  finally show ?thesis by (simp add: sum_count_list)
qed

lemma header_unique_header_bytes:
  "length (filter (\<lambda>i. word_at (header_bytes cf @ rest) (4 * i) \<noteq> 0) [0..<256]) =
     card {c. cf c \<noteq> 0}"
proof -
  let ?W = "\<lambda>i. word_at (header_bytes cf @ rest) (4 * i) \<noteq> 0"
  have "length (filter ?W [0..<256]) = length (filter id (map ?W [0..<256]))"
    by (simp add: filter_map comp_def)
  also have "map ?W [0..<256] = map (\<lambda>c. cf c \<noteq> 0) all_bytes"
    unfolding upt_256_all_bytes by (simp add: word_at_header_bytes_byte)
  also have "length (filter id (map (\<lambda>c. cf c \<noteq> 0) all_bytes)) =
      length (filter (\<lambda>c. cf c \<noteq> 0) all_bytes)"
    by (simp add: filter_map comp_def)
  also have "\<dots> = card (set (filter (\<lambda>c. cf c \<noteq> 0) all_bytes))"
    by (rule distinct_card [symmetric]) (simp add: distinct_all_bytes)
  finally show ?thesis by simp
qed

lemma read_char_freq_header:
  "\<exists>m. read_char_freq cd (header_bytes cf @ rest) 0 init =
         Inr (cd\<lparr>char_frequency := cf, max_freq := m\<rparr>, 1024,
              init + sum_list (map cf all_bytes), of_nat (card {c. cf c \<noteq> 0}))"
  unfolding read_char_freq_spec header_sum_header_bytes header_unique_header_bytes
  by (intro exI [of _ "fold (\<lambda>i m. max m (word_at (header_bytes cf @ rest) (4 * i))) [0..<256] 0"])
    (simp add: word_at_header_bytes_byte)

lemma decode_no_bits:
  assumes "head cd = Some h" and "0 < u" and "length bufin \<le> pos"
  shows "decode cd bufin pos out u = Inl OutOfBounds"
proof -
  have "bitRead 1 bufin \<lparr>bytePtr = pos, curBit = 0\<rparr> = Inl OutOfBounds"
    using assms(3) by (simp add: bitRead_def bitRead_loop_1_lt)
  then have "decode_loop h bufin \<lparr>bytePtr = pos, curBit = 0\<rparr> h out 0 (char_frequency cd) u =
      Inl OutOfBounds"
    using assms(2) by (subst decode_loop.simps) simp
  then show ?thesis by (simp add: decode_def assms(1))
qed

lemma unique_of_pos: "b \<noteq> [] \<Longrightarrow> 0 < unique_of b"
  using unique_of_eq_0 [of b] by (simp add: word_greater_zero_iff)

lemma huffman_decode_header_only:
  assumes "b \<noteq> []" and "length b < 2 ^ 32"
  shows "huffman_decode tie g (header_bytes (freq_of b)) init = Inl OutOfBounds"
proof -
  obtain m where rd: "read_char_freq (new_codec g) (header_bytes (freq_of b) @ []) 0 init =
         Inr ((new_codec g)\<lparr>char_frequency := freq_of b, max_freq := m\<rparr>, 1024,
              init + sum_list (map (freq_of b) all_bytes), of_nat (card {c. freq_of b c \<noteq> 0}))"
    using read_char_freq_header by blast
  let ?cd0 = "(new_codec g)\<lparr>char_frequency := freq_of b, max_freq := m\<rparr>"
  have cf: "char_frequency ?cd0 = freq_of b" by simp
  from huff_tree_of_input [OF cf assms, of tie]
  obtain h where h: "huff_tree tie ?cd0 = Inr ((sort_chars ?cd0)\<lparr>head := Some h\<rparr>)" by blast
  have u: "of_nat (card {c. freq_of b c \<noteq> 0}) = unique_of b"
    by (simp add: support_freq_of [OF assms(2)] unique_of_def)
  have "decode ((sort_chars ?cd0)\<lparr>head := Some h\<rparr>) (header_bytes (freq_of b)) 1024 out
          (unique_of b) = Inl OutOfBounds" for out
    by (rule decode_no_bits [where h = h]) (simp_all add: unique_of_pos assms(1))
  then show ?thesis
    using rd h u by (simp add: huffman_decode_def Let_def)
qed

section \<open>The length and the terminator of \<open>huffman_decode\<close>\<close>

text \<open>
  What \<open>huffman_decode\<close> reports: whenever it returns, the length it reports is the
  value \<open>*pbufoutlen\<close> had at the call plus the sum of the 256 counts of the header plus one,
  all in 32-bit arithmetic (\<open>header_sum\<close> is the sum modulo \<open>2 ^ 32\<close>); the output buffer has
  exactly that many bytes, and the 0 byte is its last byte, at the index "initial value plus
  sum of the counts". The decoded bytes start at index 0, so the 0 byte follows them
  immediately only when the initial value is 0.
\<close>

theorem huffman_decode_reported_length:
  assumes "huffman_decode tie g bufin init = Inr (out, len)"
  shows "len = init + header_sum bufin + 1
         \<and> length out = unat (init + header_sum bufin) + 1
         \<and> out ! unat (init + header_sum bufin) = Some 0"
proof -
  let ?total = "init + header_sum bufin"
  from assms obtain cd0 u where rd: "read_char_freq (new_codec g) bufin 0 init = Inr (cd0, 1024, ?total, u)"
    unfolding huffman_decode_def read_char_freq_spec by (auto split: if_splits)
  from assms rd obtain cd1 where ht: "huff_tree tie cd0 = Inr cd1"
    unfolding huffman_decode_def by (auto split: sum.splits)
  let ?buf = "replicate (unat (?total + 1)) (None :: byte option)"
  from assms rd ht obtain out1 cd2 where dc: "decode cd1 bufin 1024 ?buf u = Inr (out1, cd2)"
    unfolding huffman_decode_def by (auto simp: Let_def split: sum.splits)
  from assms rd ht dc have ok: "\<not> length out1 \<le> unat ?total"
    and res: "out = out1[unat ?total := Some 0]" "len = ?total + 1"
    unfolding huffman_decode_def by (auto simp: Let_def split: if_splits)
  from dc obtain h opos cf where
    "decode_loop h bufin \<lparr>bytePtr = 1024, curBit = 0\<rparr> h ?buf 0 (char_frequency cd1) u =
       Inr (out1, opos, cf)"
    unfolding decode_def by (auto split: option.splits sum.splits)
  then have len1: "length out1 = unat (?total + 1)"
    using length_decode_loop by fastforce
  have "unat (?total + 1) \<le> unat ?total + 1"
    by (simp add: unat_word_ariths)
  then have "length out = unat ?total + 1" using ok len1 res(1) by simp
  then show ?thesis using res ok by simp
qed

lemma huffman_decode_single_symbol:
  assumes n: "0 < n" and room: "unat init + n + 1 < 2 ^ 32" and bits: "n \<le> 8 * length payload"
  shows "huffman_decode tie g (header_bytes (freq_of (replicate n c)) @ payload) init =
     Inr ((replicate n (Some c) @ replicate (unat init + 1) None)[unat init + n := Some 0],
          init + of_nat n + 1)"
proof -
  define b where "b = replicate n c"
  define buf where "buf = header_bytes (freq_of b) @ payload"
  have lb: "length b = n" "length b < 2 ^ 32" "b \<noteq> []" "set b = {c}"
    using n room by (auto simp: b_def)
  obtain m where rd: "read_char_freq (new_codec g) buf 0 init =
         Inr ((new_codec g)\<lparr>char_frequency := freq_of b, max_freq := m\<rparr>, 1024,
              init + sum_list (map (freq_of b) all_bytes), of_nat (card {c. freq_of b c \<noteq> 0}))"
    unfolding buf_def using read_char_freq_header by blast
  define cd0 where "cd0 = (new_codec g)\<lparr>char_frequency := freq_of b, max_freq := m\<rparr>"
  define h where "h = Leaf c (freq_of b c)"
  define cd1 where "cd1 = (sort_chars cd0)\<lparr>head := Some h\<rparr>"
  have supp: "{x. char_frequency cd0 x \<noteq> 0} = {c}"
    by (simp add: cd0_def support_freq_of [OF lb(2)] lb(4))
  have ht: "huff_tree tie cd0 = Inr cd1"
    unfolding cd1_def h_def using huff_tree_single [OF supp, of tie] by (simp add: cd0_def)
  have u: "of_nat (card {c. freq_of b c \<noteq> 0}) = unique_of b"
    by (simp add: support_freq_of [OF lb(2)] unique_of_def)
  have tot: "init + sum_list (map (freq_of b) all_bytes) = init + of_nat n"
    by (simp add: sum_list_freq_of lb(1))
  have un: "unat (init + of_nat n :: u32) = unat init + n"
    using room by (simp add: unat_word_ariths unat_of_nat)
  have un1: "unat (init + of_nat n + 1 :: u32) = unat init + n + 1"
    using room un by (simp add: unat_word_ariths)
  define out where "out = replicate (unat init + n + 1) (None :: byte option)"
  have "decode_loop h buf \<lparr>bytePtr = 1024, curBit = 0\<rparr> h out 0 (freq_of b) (unique_of b) =
           Inr (map Some b @ drop (length b) out, length b, \<lambda>_. 0)"
  proof (rule decode_loop_all)
    show "set b \<subseteq> set (leaf_chars h)" by (simp add: lb(4) h_def)
    show "length b < 2 ^ 32" by (rule lb(2))
    show "stream_ok h buf (cursor_pos \<lparr>bytePtr = 1024, curBit = 0\<rparr>) b"
      using bits by (simp add: stream_ok_def h_def cursor_pos_def buf_def lb(1))
    show "curBit \<lparr>bytePtr = 1024, curBit = 0\<rparr> < 8" by simp
    show "length b \<le> length out" by (simp add: out_def lb(1))
  qed
  moreover have "drop (length b) out = replicate (unat init + 1) None"
    unfolding out_def drop_replicate lb(1) by simp
  moreover have "map Some b = replicate n (Some c)" by (simp add: b_def)
  ultimately have "decode_loop h buf \<lparr>bytePtr = 1024, curBit = 0\<rparr> h out 0 (freq_of b) (unique_of b) =
           Inr (replicate n (Some c) @ replicate (unat init + 1) None, length b, \<lambda>_. 0)"
    by (simp only:)
  then have dc: "decode cd1 buf 1024 out (unique_of b) =
      Inr (replicate n (Some c) @ replicate (unat init + 1) None, cd1\<lparr>char_frequency := \<lambda>_. 0\<rparr>)"
    by (simp add: decode_def cd1_def cd0_def)
  have o: "replicate (unat (init + of_nat n + 1)) None = out"
    by (simp only: un1 out_def)
  have "huffman_decode tie g buf init =
     Inr ((replicate n (Some c) @ replicate (unat init + 1) None)[unat init + n := Some 0],
          init + of_nat n + 1)"
    unfolding huffman_decode_def rd tot u cd0_def [symmetric] prod.case sum.case Let_def ht o dc
    by (simp add: un)
  then show ?thesis by (simp add: buf_def b_def)
qed

lemma four_updates:
  assumes "p + 4 \<le> length buf"
  shows "buf[p := x0, p + 1 := x1, p + 2 := x2, p + 3 := x3] =
         take p buf @ [x0, x1, x2, x3] @ drop (p + 4) buf"
proof (rule nth_equalityI)
  show "length (buf[p := x0, p + 1 := x1, p + 2 := x2, p + 3 := x3]) =
        length (take p buf @ [x0, x1, x2, x3] @ drop (p + 4) buf)"
    using assms by simp
next
  fix i assume "i < length (buf[p := x0, p + 1 := x1, p + 2 := x2, p + 3 := x3])"
  then have i: "i < length buf" by simp
  consider "i < p" | "i = p" | "i = p + 1" | "i = p + 2" | "i = p + 3" | "p + 4 \<le> i"
    by linarith
  then show "buf[p := x0, p + 1 := x1, p + 2 := x2, p + 3 := x3] ! i =
        (take p buf @ [x0, x1, x2, x3] @ drop (p + 4) buf) ! i"
  proof cases
    case 6
    then obtain k where k: "i = p + 4 + k" using le_Suc_ex by blast
    show ?thesis using i assms unfolding k by (simp add: nth_append)
  qed (use i assms in \<open>simp_all add: nth_append\<close>)
qed

lemma store_u32_le_bytes:
  "store_u32 buf p w =
     (if length buf < p + 4 then Inl OutOfBounds
      else Inr (take p buf @ le_bytes w @ drop (p + 4) buf))"
  using four_updates [of p buf] by (simp add: store_u32_def le_bytes_def not_less)

lemma write_char_freq_loop_upt:
  assumes "4 * b \<le> length buf" and "a \<le> b"
  shows "write_char_freq_loop cf [a..<b] buf (4 * a) =
     Inr (take (4 * a) buf @ concat (map (\<lambda>i. le_bytes (cf (of_nat i))) [a..<b]) @ drop (4 * b) buf,
          4 * b)"
  using assms
proof (induction "b - a" arbitrary: a buf)
  case 0
  then have "a = b" by simp
  then show ?case by simp
next
  case (Suc n)
  then have ab: "a < b" and n: "n = b - Suc a" by simp_all
  have up: "[a..<b] = a # [Suc a..<b]" using ab by (rule upt_conv_Cons)
  define buf1 where "buf1 = take (4 * a) buf @ le_bytes (cf (of_nat a)) @ drop (4 * a + 4) buf"
  have len: "4 * a + 4 \<le> length buf" using ab Suc.prems(1) by simp
  have l1: "length buf1 = length buf" using len by (simp add: buf1_def)
  have st: "store_u32 buf (4 * a) (cf (of_nat a)) = Inr buf1"
    using len by (simp add: store_u32_le_bytes buf1_def)
  have ih: "write_char_freq_loop cf [Suc a..<b] buf1 (4 * Suc a) =
     Inr (take (4 * Suc a) buf1 @ concat (map (\<lambda>i. le_bytes (cf (of_nat i))) [Suc a..<b]) @
          drop (4 * b) buf1, 4 * b)"
    using Suc.hyps(1) [OF n, of buf1] Suc.prems(1) ab l1 by simp
  have t: "take (4 * Suc a) buf1 = take (4 * a) buf @ le_bytes (cf (of_nat a))"
    using len by (simp add: buf1_def)
  have "drop (4 * b) buf1 = drop (4 * b - (4 * a + 4)) (drop (4 * a + 4) buf)"
    using len ab by (simp add: buf1_def)
  also have "\<dots> = drop (4 * b) buf" using ab by simp
  finally have d: "drop (4 * b) buf1 = drop (4 * b) buf" .
  have "write_char_freq_loop cf (a # [Suc a..<b]) buf (4 * a) =
        write_char_freq_loop cf [Suc a..<b] buf1 (4 * Suc a)"
    by (simp add: st add.commute)
  then show ?case unfolding up ih t d by simp
qed

lemma write_char_freq_zeroed:
  "write_char_freq cd (replicate 1024 0) 0 = Inr (header_bytes (char_frequency cd), 1024)"
  using write_char_freq_loop_upt [of 256 "replicate 1024 0" 0 "char_frequency cd"]
  by (simp add: write_char_freq_def header_bytes_def)

lemma fold_add_zero:
  "\<forall>i\<in>set xs. h i = (0::u64) \<Longrightarrow> fold (\<lambda>i bc. bc + h i) xs s = s"
  by (induction xs arbitrary: s) simp_all

lemma encode_loop_empty_codes:
  "\<forall>x\<in>set b. length_c (cs x) = 0 \<Longrightarrow> encode_loop cs b buf cur = Inr (buf, cur)"
  by (induction b) simp_all

lemma huffman_encode_single_symbol:
  assumes n: "0 < n" and len: "n < 2 ^ 32"
  shows "huffman_encode tie g (replicate n c) = Inr (header_bytes (freq_of (replicate n c)), 1024)"
proof -
  define b where "b = replicate n c"
  define cd0 where "cd0 = count_chars b (new_codec g)"
  define w where "w = freq_of b c"
  define cd1 where "cd1 = (sort_chars cd0)\<lparr>head := Some (Leaf c w)\<rparr>"
  define cd2 where "cd2 = cd1\<lparr>codes := g(c := \<lparr>length_c = 0, value_c = 0\<rparr>)\<rparr>"
  have lb: "length b < 2 ^ 32" "set b = {c}" using n len by (auto simp: b_def)
  have cf: "char_frequency cd0 = freq_of b" unfolding cd0_def by (rule char_frequency_fresh)
  have supp: "{x. char_frequency cd0 x \<noteq> 0} = {c}"
    by (simp add: cf support_freq_of [OF lb(1)] lb(2))
  have ht: "huff_tree tie cd0 = Inr cd1"
    unfolding cd1_def w_def using huff_tree_single [OF supp, of tie] by (simp add: cf)
  have gc: "gen_codes cd1 = Inr cd2"
    by (simp add: gen_codes_def cd1_def cd2_def cd0_def new_codec_def)
  have zero: "freq_of b x = 0" if "x \<noteq> c" for x
    using that support_freq_of [OF lb(1)] lb(2) by auto
  have prod0: "\<forall>i\<in>set [0..<256].
      (ucast (char_frequency cd2 (of_nat i) * word_of_int (length_c (codes cd2 (of_nat i)))) :: u64) = 0"
    by (simp add: cd2_def cd1_def cf zero)
  have size: "calc_out_buff_size cd2 = 1024"
    unfolding calc_out_buff_size_def Let_def fold_add_zero [OF prod0] by simp
  have wr: "write_char_freq cd2 (replicate 1024 0) 0 = Inr (header_bytes (freq_of b), 1024)"
    unfolding write_char_freq_zeroed by (simp add: cd2_def cd1_def cf)
  have "\<forall>x\<in>set b. length_c (codes cd2 x) = 0" by (simp add: lb(2) cd2_def)
  then have en: "encode cd2 b (header_bytes (freq_of b)) 1024 = Inr (header_bytes (freq_of b))"
    by (simp add: encode_def encode_loop_empty_codes)
  have "huffman_encode tie g b = Inr (header_bytes (freq_of b), 1024)"
    unfolding huffman_encode_def Let_def cd0_def [symmetric] ht sum.case gc size
    using wr en by simp
  then show ?thesis by (simp add: b_def)
qed

theorem huffman_decode_reported_length_witness:
  "huffman_decode (\<lambda>q. 0) (\<lambda>_. \<lparr>length_c = 0, value_c = 0\<rparr>)
     (header_bytes (freq_of [0x61]) @ [0]) 0 = Inr ([Some 0x61, Some 0], 2)
   \<and> (2 :: u32) = 0 + header_sum (header_bytes (freq_of [0x61]) @ [0]) + 1
   \<and> length [Some (0x61 :: byte), Some 0] =
       unat (0 + header_sum (header_bytes (freq_of [0x61]) @ [0])) + 1
   \<and> [Some (0x61 :: byte), Some 0] ! unat (0 + header_sum (header_bytes (freq_of [0x61]) @ [0]))
       = Some 0"
proof -
  have e: "huffman_decode (\<lambda>q. 0) (\<lambda>_. \<lparr>length_c = 0, value_c = 0\<rparr>)
     (header_bytes (freq_of [0x61]) @ [0]) 0 = Inr ([Some 0x61, Some 0], 2)"
    using huffman_decode_single_symbol [where n = 1 and c = "0x61" and init = 0 and payload = "[0]"]
    by simp
  from huffman_decode_reported_length [OF e] e show ?thesis by blast
qed

text \<open>
  C10 at the header with the single count 1 at index \<open>0x61\<close>, one payload byte, and
  \<open>*pbufoutlen = 1\<close> at the call. \<open>read_char_freq\<close> sets \<open>uniqueChars\<close> and \<open>max_freq\<close> to 0 but
  adds the counts to \<open>totalSize\<close> as it finds it: the sum of the counts is 1, the reported
  length is 1 + 1 + 1 = 3, one byte is decoded into index 0, and the 0 byte that
  \<open>huffman_decode\<close> appends as a terminator is written at index 2. Index 1, immediately
  after the decoded byte, is never written.
\<close>

theorem huffman_decode_terminator_gap:
  "huffman_decode (\<lambda>q. 0) (\<lambda>_. \<lparr>length_c = 0, value_c = 0\<rparr>)
     (header_bytes (freq_of [0x61]) @ [0]) 1 = Inr ([Some 0x61, None, Some 0], 3)
   \<and> header_sum (header_bytes (freq_of [0x61]) @ [0]) = 1"
  using huffman_decode_single_symbol [where n = 1 and c = "0x61" and init = 1 and payload = "[0]"]
  by (simp add: header_sum_header_bytes sum_list_freq_of)

section \<open>The encoder's output for a single-symbol input\<close>

text \<open>
  C1 at the one-byte input \<open>A\<close> (\<open>0x41\<close>): the tree is the single leaf, the code of \<open>0x41\<close> has
  length 0, and \<open>huffman_encode\<close> returns the 1024 bytes of the header and no payload.
  \<open>huffman_decode\<close>, given these 1024 bytes, reads the header, builds the same leaf, and
  \<open>decode\<close> calls \<open>bitRead(1)\<close> before it looks at the node: the read is one byte past the
  end of the buffer. No bytes are returned.
\<close>

theorem round_trip_single_byte:
  "huffman_encode tie g [0x41] = Inr (header_bytes (freq_of [0x41]), 1024)
   \<and> length (header_bytes (freq_of [0x41])) = 1024
   \<and> huffman_decode tie' g' (header_bytes (freq_of [0x41])) init = Inl OutOfBounds"
  using huffman_encode_single_symbol [where n = 1 and c = "0x41" and tie = tie and g = g]
    huffman_decode_header_only [where b = "[0x41]" and tie = tie' and g = g' and init = init]
  by simp

text \<open>
  C2 at 1000 copies of \<open>0x41\<close>: the output of \<open>huffman_encode\<close> is the header alone, 1024
  bytes, whose only nonzero entry is 1000 at index \<open>0x41\<close>; this half of the claim holds.
  \<open>huffman_decode\<close> of that output does not reproduce the input: \<open>decode\<close> reads one bit per
  byte to emit, and the first read is already past the end of the 1024 bytes.
\<close>

theorem single_symbol_thousand:
  "huffman_encode tie g (replicate 1000 0x41) =
     Inr (header_bytes (freq_of (replicate 1000 0x41)), 1024)
   \<and> freq_of (replicate 1000 0x41) = (\<lambda>_. 0)(0x41 := 1000)
   \<and> word_at (header_bytes (freq_of (replicate 1000 0x41))) (4 * 0x41) = 1000
   \<and> huffman_decode tie' g' (header_bytes (freq_of (replicate 1000 0x41))) init =
       Inl OutOfBounds"
proof -
  have 1: "huffman_encode tie g (replicate 1000 0x41) =
     Inr (header_bytes (freq_of (replicate 1000 0x41)), 1024)"
    by (rule huffman_encode_single_symbol) simp_all
  have 2: "freq_of (replicate 1000 0x41) = (\<lambda>_. 0)(0x41 := 1000)"
    by (auto simp: fun_eq_iff freq_of_def count_list_replicate)
  have "word_at (header_bytes (freq_of (replicate 1000 0x41)) @ []) (4 * unat (0x41 :: byte)) =
        freq_of (replicate 1000 0x41) 0x41"
    by (rule word_at_header_bytes_byte)
  then have 3: "word_at (header_bytes (freq_of (replicate 1000 0x41))) (4 * 0x41) = 1000"
    unfolding 2 by simp
  have 4: "huffman_decode tie' g' (header_bytes (freq_of (replicate 1000 0x41))) init =
       Inl OutOfBounds"
    by (rule huffman_decode_header_only) simp_all
  show ?thesis by (rule conjI [OF 1 conjI [OF 2 conjI [OF 3 4]]])
qed

text \<open>
  C5 at the stream \<open>huffman_encode\<close> produces for the one-byte input \<open>a\<close> (\<open>0x61\<close>): 1024
  header bytes with the single count 1 at index \<open>0x61\<close>, and no payload, as the only code has
  length 0. \<open>read_char_freq\<close> finds the total 1 and one byte value with a nonzero count,
  \<open>huff_tree\<close> builds the single leaf, and \<open>decode\<close>, called with \<open>uniqueChars = 1\<close>, reads a
  bit at byte 1024 of the 1024-byte buffer before it tests for a leaf. The loop does not
  run until the count of remaining byte values is zero, and emits no byte.
\<close>

theorem decode_single_leaf_reads_past_end:
  "huffman_encode tie g [0x61] = Inr (header_bytes (freq_of [0x61]), 1024)
   \<and> (\<exists>cd0 cd1.
        read_char_freq (new_codec g') (header_bytes (freq_of [0x61])) 0 0 = Inr (cd0, 1024, 1, 1)
        \<and> huff_tree tie' cd0 = Inr cd1
        \<and> head cd1 = Some (Leaf 0x61 1)
        \<and> char_frequency cd1 = freq_of [0x61]
        \<and> decode cd1 (header_bytes (freq_of [0x61])) 1024 out 1 = Inl OutOfBounds)"
proof -
  let ?H = "header_bytes (freq_of [0x61])"
  have 1: "huffman_encode tie g [0x61] = Inr (?H, 1024)"
    using huffman_encode_single_symbol [where n = 1 and c = "0x61" and tie = tie and g = g]
    by simp
  obtain m where "read_char_freq (new_codec g') (?H @ []) 0 0 =
         Inr ((new_codec g')\<lparr>char_frequency := freq_of [0x61], max_freq := m\<rparr>, 1024,
              0 + sum_list (map (freq_of [0x61]) all_bytes),
              of_nat (card {c. freq_of [0x61] c \<noteq> 0}))"
    using read_char_freq_header by blast
  moreover have "{c. freq_of [0x61] c \<noteq> 0} = {0x61}"
    by (auto simp: freq_of_def)
  ultimately have rd: "read_char_freq (new_codec g') ?H 0 0 =
         Inr ((new_codec g')\<lparr>char_frequency := freq_of [0x61], max_freq := m\<rparr>, 1024, 1, 1)"
    by (simp add: sum_list_freq_of)
  let ?cd0 = "(new_codec g')\<lparr>char_frequency := freq_of [0x61], max_freq := m\<rparr>"
  let ?cd1 = "(sort_chars ?cd0)\<lparr>head := Some (Leaf 0x61 1)\<rparr>"
  have "{x. char_frequency ?cd0 x \<noteq> 0} = {0x61}" by (auto simp: freq_of_def)
  from huff_tree_single [OF this, of tie']
  have ht: "huff_tree tie' ?cd0 = Inr ?cd1" by (simp add: freq_of_def)
  have dc: "decode ?cd1 ?H 1024 out 1 = Inl OutOfBounds"
    by (rule decode_no_bits [where h = "Leaf 0x61 1"]) simp_all
  have "read_char_freq (new_codec g') ?H 0 0 = Inr (?cd0, 1024, 1, 1)
        \<and> huff_tree tie' ?cd0 = Inr ?cd1
        \<and> head ?cd1 = Some (Leaf 0x61 1)
        \<and> char_frequency ?cd1 = freq_of [0x61]
        \<and> decode ?cd1 ?H 1024 out 1 = Inl OutOfBounds"
    using rd ht dc by simp
  then show ?thesis using 1 by blast
qed

section \<open>The size of the output buffer\<close>

lemma bitWrite_fits:
  "bitWrite bits val buf cur = Inr (buf', cur') \<Longrightarrow> curBit cur < 8 \<Longrightarrow>
   length buf' = length buf \<and> curBit cur' < 8 \<and> cursor_pos cur' = cursor_pos cur + bits
   \<and> (0 < bits \<longrightarrow> cursor_pos cur' \<le> 8 * length buf)"
proof (induction bits val buf cur rule: bitWrite.induct)
  case (1 bits val buf cursor)
  show ?case
  proof (cases "0 < bits")
    case False
    then show ?thesis using "1.prems" by (subst (asm) bitWrite.simps) simp
  next
    case True
    have inb: "bytePtr cursor < length buf"
      using "1.prems" True by (subst (asm) bitWrite.simps) (auto simp: Let_def split: if_splits)
    show ?thesis
    proof (cases "bits < 8 - curBit cursor")
      case small: True
      then have n8: "\<not> 8 \<le> curBit cursor + bits" by simp
      have "bitWrite bits val buf cursor =
          Inr (buf[bytePtr cursor :=
                   buf ! bytePtr cursor OR ucast (push_bit (8 - curBit cursor - bits) val)],
               cursor\<lparr>curBit := curBit cursor + bits\<rparr>)"
        using True inb small n8 by (subst bitWrite.simps) (simp add: Let_def)
      then have "buf' = buf[bytePtr cursor :=
                   buf ! bytePtr cursor OR ucast (push_bit (8 - curBit cursor - bits) val)]"
        and "cur' = cursor\<lparr>curBit := curBit cursor + bits\<rparr>"
        using "1.prems"(1) by simp_all
      moreover have "curBit cursor + bits < 8" using small by simp
      moreover have "8 * bytePtr cursor + (curBit cursor + bits) \<le> 8 * length buf"
        using small inb by linarith
      ultimately show ?thesis by (simp add: cursor_pos_def)
    next
      case False
      define rest where "rest = bits - (8 - curBit cursor)"
      define buf1 where "buf1 = buf[bytePtr cursor :=
                            buf ! bytePtr cursor OR ucast (signed_drop_bit rest val)]"
      define val1 where "val1 = val AND (push_bit rest 1 - 1)"
      define cur1 where "cur1 = cursor\<lparr>curBit := 0, bytePtr := bytePtr cursor + 1\<rparr>"
      have ok: "\<not> 32 \<le> rest"
        using "1.prems" True inb False
        by (subst (asm) bitWrite.simps) (auto simp: Let_def rest_def split: if_splits)
      have rec: "bitWrite rest val1 buf1 cur1 = Inr (buf', cur')"
        using "1.prems"(1) True inb False ok
        by (subst (asm) bitWrite.simps) (simp add: Let_def rest_def buf1_def val1_def cur1_def)
      note rec' = rec [unfolded rest_def buf1_def val1_def cur1_def]
      have nb: "\<not> length buf \<le> bytePtr cursor" using inb by simp
      have ih: "length buf' = length buf1 \<and> curBit cur' < 8 \<and>
                cursor_pos cur' = cursor_pos cur1 + rest \<and>
                (0 < rest \<longrightarrow> cursor_pos cur' \<le> 8 * length buf1)"
        unfolding rest_def buf1_def val1_def cur1_def
        by (rule "1.IH"(2) [OF True refl nb False ok [unfolded rest_def] refl refl rec']) simp
      have p1: "cursor_pos cur1 + rest = cursor_pos cursor + bits"
        using False "1.prems"(2) by (simp add: cursor_pos_def cur1_def rest_def)
      have "cursor_pos cur1 \<le> 8 * length buf"
        using inb by (simp add: cursor_pos_def cur1_def)
      then have "cursor_pos cur' \<le> 8 * length buf"
        using ih by (cases "0 < rest") (simp_all add: buf1_def)
      then show ?thesis using ih p1 by (simp add: buf1_def)
    qed
  qed
qed

lemma encode_loop_fits:
  "encode_loop cs b buf cur = Inr (buf', cur') \<Longrightarrow> curBit cur < 8 \<Longrightarrow>
   length buf' = length buf \<and> curBit cur' < 8
   \<and> cursor_pos cur' = cursor_pos cur + sum_list (map (\<lambda>x. nat (length_c (cs x))) b)
   \<and> (0 < sum_list (map (\<lambda>x. nat (length_c (cs x))) b) \<longrightarrow> cursor_pos cur' \<le> 8 * length buf)"
proof (induction b arbitrary: buf cur)
  case Nil
  then show ?case by simp
next
  case (Cons x b)
  from Cons.prems(1) obtain buf1 cur1 where
    w: "bitWrite (nat (length_c (cs x))) (value_c (cs x)) buf cur = Inr (buf1, cur1)"
    and r: "encode_loop cs b buf1 cur1 = Inr (buf', cur')"
    by (auto split: sum.splits)
  note f1 = bitWrite_fits [OF w Cons.prems(2)]
  then have c1: "curBit cur1 < 8" by simp
  define T where "T = sum_list (map (\<lambda>x. nat (length_c (cs x))) b)"
  define k where "k = nat (length_c (cs x))"
  have f2: "length buf' = length buf1" "curBit cur' < 8" "cursor_pos cur' = cursor_pos cur1 + T"
    "0 < T \<Longrightarrow> cursor_pos cur' \<le> 8 * length buf1"
    using Cons.IH [OF r c1] unfolding T_def by blast+
  have g1: "length buf1 = length buf" "cursor_pos cur1 = cursor_pos cur + k"
    "0 < k \<Longrightarrow> cursor_pos cur1 \<le> 8 * length buf"
    using f1 unfolding k_def by blast+
  have "cursor_pos cur' \<le> 8 * length buf" if "0 < k + T"
  proof (cases "0 < T")
    case True
    then show ?thesis using f2(4) g1(1) by simp
  next
    case False
    then have "T = 0" by simp
    then have "0 < k" "cursor_pos cur' = cursor_pos cur1" using that f2(3) by simp_all
    then show ?thesis using g1(3) by simp
  qed
  moreover have "sum_list (map (\<lambda>x. nat (length_c (cs x))) (x # b)) = k + T"
    by (simp add: k_def T_def)
  ultimately show ?case using f2(1,2,3) g1(1,2) by simp
qed

lemma write_char_freq_loop_room:
  "write_char_freq_loop cf [a..<b] buf (4 * a) = Inr r \<Longrightarrow> a < b \<Longrightarrow> 4 * b \<le> length buf"
proof (induction "b - a" arbitrary: a buf)
  case 0
  then show ?case by simp
next
  case (Suc n)
  have up: "[a..<b] = a # [Suc a..<b]" using Suc.prems(2) by (rule upt_conv_Cons)
  define buf1 where "buf1 = take (4 * a) buf @ le_bytes (cf (of_nat a)) @ drop (4 * a + 4) buf"
  have len: "4 * a + 4 \<le> length buf"
    using Suc.prems(1) unfolding up by (auto simp: store_u32_le_bytes split: if_splits)
  then have st: "store_u32 buf (4 * a) (cf (of_nat a)) = Inr buf1"
    by (simp add: store_u32_le_bytes buf1_def)
  have l1: "length buf1 = length buf" using len by (simp add: buf1_def)
  have rec: "write_char_freq_loop cf [Suc a..<b] buf1 (4 * Suc a) = Inr r"
    using Suc.prems(1) unfolding up by (simp add: st add.commute)
  show ?case
  proof (cases "Suc a < b")
    case True
    have "n = b - Suc a" using Suc.hyps(2) by simp
    from Suc.hyps(1) [OF this rec True] show ?thesis using l1 by simp
  next
    case False
    then have "b = Suc a" using Suc.prems(2) by simp
    then show ?thesis using len by simp
  qed
qed

lemma write_char_freq_result:
  assumes "write_char_freq cd buf 0 = Inr (buf1, p)"
  shows "1024 \<le> length buf \<and> length buf1 = length buf \<and> p = 1024"
proof -
  have w: "write_char_freq_loop (char_frequency cd) [0..<256] buf (4 * 0) = Inr (buf1, p)"
    using assms by (simp add: write_char_freq_def)
  from write_char_freq_loop_room [OF w] have len: "4 * 256 \<le> length buf" by simp
  from write_char_freq_loop_upt [OF len, of 0 "char_frequency cd"] w
  show ?thesis using len by (auto simp: length_concat_le_bytes)
qed

lemma fold_add_sum_list:
  "fold (\<lambda>i bc. bc + h i) xs (s :: u64) = s + sum_list (map h xs)"
  by (induction xs arbitrary: s) (simp_all add: add.assoc)

lemma unat_sum_list_u64:
  "length xs \<le> 256 \<Longrightarrow>
   unat (sum_list (map (\<lambda>i. ucast (p i :: u32)) xs) :: u64) = sum_list (map (\<lambda>i. unat (p i)) xs)
   \<and> sum_list (map (\<lambda>i. unat (p i)) xs) \<le> length xs * 2 ^ 32"
proof (induction xs)
  case Nil
  show ?case by simp
next
  case (Cons x xs)
  then have ih: "unat (sum_list (map (\<lambda>i. ucast (p i)) xs) :: u64) = sum_list (map (\<lambda>i. unat (p i)) xs)"
    and b: "sum_list (map (\<lambda>i. unat (p i)) xs) \<le> length xs * 2 ^ 32" and l: "length xs < 256"
    by simp_all
  have px: "unat (p x) < 2 ^ 32" using unsigned_less [of "p x", where 'a = nat] by simp
  have ux: "unat (ucast (p x) :: u64) = unat (p x)"
    using px by (simp add: unsigned_ucast_eq take_bit_nat_eq_self)
  have "length xs * 2 ^ 32 \<le> 255 * (2 ^ 32 :: nat)" using l by simp
  then have small: "unat (p x) + sum_list (map (\<lambda>i. unat (p i)) xs) < 2 ^ 64"
    using px b by simp
  have "unat (ucast (p x) + sum_list (map (\<lambda>i. ucast (p i)) xs) :: u64) =
        unat (p x) + sum_list (map (\<lambda>i. unat (p i)) xs)"
    using small by (simp add: unat_word_ariths ux ih)
  then show ?case using px b by simp
qed

lemma calc_out_buff_size_unat:
  "unat (calc_out_buff_size cd) =
     (((\<Sum>c\<in>UNIV. unat (char_frequency cd c * word_of_int (length_c (codes cd c)))) + 7) div 8
        + 1024) mod 2 ^ 32"
proof -
  define p where "p = (\<lambda>c. char_frequency cd c * word_of_int (length_c (codes cd c)))"
  define S where "S = (\<Sum>c\<in>UNIV. unat (p c))"
  define bc where "bc = (sum_list (map (\<lambda>c. ucast (p c)) all_bytes) :: u64)"
  have "fold (\<lambda>i bc. bc + ucast (p (of_nat i))) [0..<256] (0::u64) =
        sum_list (map (\<lambda>i. ucast (p (of_nat i))) [0..<256])"
    by (simp add: fold_add_sum_list)
  also have "\<dots> = bc" by (simp add: bc_def all_bytes_def comp_def)
  finally have f: "fold (\<lambda>i bc. bc + ucast (p (of_nat i))) [0..<256] (0::u64) = bc" .
  have "unat bc = sum_list (map (\<lambda>c. unat (p c)) all_bytes)"
    and "sum_list (map (\<lambda>c. unat (p c)) all_bytes) \<le> length all_bytes * 2 ^ 32"
    unfolding bc_def using unat_sum_list_u64 [of all_bytes p] by simp_all
  moreover have "sum_list (map (\<lambda>c. unat (p c)) all_bytes) = S"
    unfolding S_def
    using sum_list_distinct_conv_sum_set [OF distinct_all_bytes, of "\<lambda>c. unat (p c)"] by simp
  ultimately have ub: "unat bc = S" and Sb: "S \<le> 256 * 2 ^ 32" by simp_all
  have u7: "unat (bc + 7) = S + 7" using ub Sb by (simp add: unat_word_ariths)
  have ud: "unat ((bc + 7) div 8) = (S + 7) div 8" using u7 by (simp add: unat_div)
  have "(S + 7) div 8 \<le> 2 ^ 40" using Sb by simp
  then have ua: "unat ((bc + 7) div 8 + 1024) = (S + 7) div 8 + 1024"
    using ud by (simp add: unat_word_ariths)
  have "calc_out_buff_size cd = ucast ((bc + 7) div 8 + 1024)"
    using f by (simp add: calc_out_buff_size_def Let_def p_def)
  then have "unat (calc_out_buff_size cd) = ((S + 7) div 8 + 1024) mod 2 ^ 32"
    using ua by (simp add: unsigned_ucast_eq take_bit_eq_mod)
  then show ?thesis by (simp add: S_def p_def)
qed

lemma sort_chars_empty:
  "sorted_leaf_nodes (sort_chars (count_chars [] (new_codec g))) = [Leaf 0 LAST_NODE]"
proof -
  have "sorted_leaf_nodes (sort_chars (count_chars [] (new_codec g))) =
      map (\<lambda>c. Leaf c 0) (radix_sorted (\<lambda>_. 0) (ceil_log10 (unat (0::u32))) []) @ [Leaf 0 LAST_NODE]"
    by (rule sort_chars_leaves [where cf = "\<lambda>_. 0" and m = 0 and S = "[]"])
      (simp_all add: count_chars_Nil new_codec_def)
  then show ?thesis by (simp add: ceil_log10.simps)
qed


lemma huff_loop_no_leaves: "huff_loop tie [Leaf 0 LAST_NODE] 0 [] = Inl Uninitialised"
  by (subst huff_loop.simps) (simp add: get_min_node_def)

lemma unat_product_le:
  assumes "unat (a :: u32) = n" and "0 \<le> l \<or> n = 0"
  shows "unat (a * word_of_int l) \<le> n * nat l"
proof (cases "n = 0")
  case True
  then have "a = 0" using assms(1) by (simp add: unat_eq_0)
  then show ?thesis by simp
next
  case False
  then have l: "0 \<le> l" using assms(2) by simp
  then have "(word_of_int l :: u32) = of_nat (nat l)" by simp
  then have "unat (word_of_int l :: u32) \<le> nat l" by (simp add: unat_of_nat)
  moreover have "unat (a * word_of_int l) \<le> unat a * unat (word_of_int l :: u32)"
    by (simp add: unat_word_ariths)
  ultimately show ?thesis
    using assms(1) by (meson le_trans mult_le_mono2)
qed

lemma sum_list_code_lengths:
  "sum_list (map f b) = (\<Sum>c\<in>(UNIV :: byte set). count_list b c * (f c :: nat))"
proof -
  have "sum_list (map f b) = (\<Sum>c\<in>set b. count_list b c * f c)"
    by (rule sum_list_map_eq_sum_count)
  also have "\<dots> = (\<Sum>c\<in>UNIV. count_list b c * f c)"
    by (rule sum.mono_neutral_left) (auto simp: count_list_0_iff)
  finally show ?thesis .
qed

text \<open>
  Whenever \<open>huffman_encode\<close> completes, that is, every read and write of the run is inside
  an initialised object and every shift is defined, the size it reports is
  \<open>ceil(total_packed_bits / 8) + 1024\<close> with the exact sum of the products of count and
  code length, and the buffer it returns has that size: \<open>calc_out_buff_size\<close> computes the
  sum from 32-bit products and cuts the result to 32 bits, but a run in which either loses
  something allocates too little and writes outside the buffer.
\<close>

lemma huffman_encode_size:
  assumes enc: "huffman_encode tie g b = Inr (buf, len)" and lb: "length b < 2 ^ 32"
  shows "\<exists>cs. encoder_codes tie g b = Inr cs
     \<and> unat len = ((\<Sum>c\<in>UNIV. count_list b c * nat (length_c (cs c))) + 7) div 8 + 1024
     \<and> length buf = unat len"
proof -
  define cd0 where "cd0 = count_chars b (new_codec g)"
  have ne: "b \<noteq> []"
  proof
    assume "b = []"
    then have "huffman_encode tie g b = Inl Uninitialised"
      by (simp add: huffman_encode_def Let_def huff_tree_def sort_chars_empty huff_loop_no_leaves)
    then show False using enc by simp
  qed
  from enc obtain cd1 where ht: "huff_tree tie cd0 = Inr cd1"
    unfolding huffman_encode_def Let_def cd0_def by (auto split: sum.splits)
  from enc ht obtain cd2 where gc: "gen_codes cd1 = Inr cd2"
    unfolding huffman_encode_def Let_def cd0_def [symmetric] by (auto split: sum.splits)
  define cs where "cs = codes cd2"
  have ec: "encoder_codes tie g b = Inr cs"
    by (simp add: encoder_codes_def cd0_def [symmetric] ht gc cs_def)
  have cf2: "char_frequency cd2 = freq_of b"
    using huff_tree_keeps_frequency [OF ht] gc
    by (auto simp: gen_codes_def cd0_def char_frequency_fresh split: option.splits)
  have enc': "(case write_char_freq cd2 (replicate (unat (calc_out_buff_size cd2)) 0) 0 of
                 Inl e \<Rightarrow> Inl e
               | Inr (buf1, curPtr) \<Rightarrow>
                   (case encode cd2 b buf1 curPtr of
                      Inl e \<Rightarrow> Inl e
                    | Inr buf2 \<Rightarrow> Inr (buf2, calc_out_buff_size cd2))) = Inr (buf, len)"
    using enc by (simp add: huffman_encode_def Let_def cd0_def [symmetric] ht gc)
  then have len: "len = calc_out_buff_size cd2"
    by (auto split: sum.splits)
  from enc' obtain buf1 p where
    wr: "write_char_freq cd2 (replicate (unat len) 0) 0 = Inr (buf1, p)"
    and en: "encode cd2 b buf1 p = Inr buf"
    unfolding len by (auto split: sum.splits)
  from write_char_freq_result [OF wr]
  have room: "1024 \<le> unat len" and l1: "length buf1 = unat len" and p: "p = 1024" by simp_all
  from en obtain cur' where
    el: "encode_loop cs b buf1 \<lparr>bytePtr = 1024, curBit = 0\<rparr> = Inr (buf, cur')"
    unfolding encode_def p cs_def by (auto split: sum.splits)
  define T where "T = sum_list (map (\<lambda>x. nat (length_c (cs x))) b)"
  have fits: "length buf = length buf1" "0 < T \<Longrightarrow> 8 * 1024 + T \<le> 8 * length buf1"
    using encode_loop_fits [OF el] unfolding T_def by (simp_all add: cursor_pos_def)
  have Tsum: "T = (\<Sum>c\<in>UNIV. count_list b c * nat (length_c (cs c)))"
    unfolding T_def by (rule sum_list_code_lengths)
  from encoder_codes_of_input [OF ne lb, of tie g] ec
  obtain h where h: "cs = gen_codes_from h \<lparr>length_c = 0, value_c = 0\<rparr> g"
    and s: "set (leaf_chars h) = set b" and d: "distinct (leaf_chars h)"
    by auto
  have nonneg: "0 \<le> length_c (cs c)" if "c \<in> set b" for c
    unfolding h gen_codes_from_spec [OF d] using that s by (simp add: length_c_code_after)
  define S where "S = (\<Sum>c\<in>UNIV. unat (char_frequency cd2 c * word_of_int (length_c (codes cd2 c))))"
  have "S \<le> (\<Sum>c\<in>UNIV. count_list b c * nat (length_c (cs c)))"
    unfolding S_def
  proof (rule sum_mono)
    fix c :: byte
    have u: "unat (char_frequency cd2 c) = count_list b c"
      by (simp add: cf2 unat_freq_of [OF lb])
    have "0 \<le> length_c (cs c) \<or> count_list b c = 0"
      using nonneg [of c] by (auto simp: count_list_0_iff)
    from unat_product_le [OF u this]
    show "unat (char_frequency cd2 c * word_of_int (length_c (codes cd2 c))) \<le>
          count_list b c * nat (length_c (cs c))"
      by (simp add: cs_def)
  qed
  then have ST: "S \<le> T" by (simp add: Tsum)
  have "unat len = ((S + 7) div 8 + 1024) mod 2 ^ 32"
    unfolding len S_def by (rule calc_out_buff_size_unat)
  then have "unat len \<le> (S + 7) div 8 + 1024" by simp
  also have "\<dots> \<le> (T + 7) div 8 + 1024" using ST by (simp add: div_le_mono)
  finally have upper: "unat len \<le> (T + 7) div 8 + 1024" .
  have lower: "(T + 7) div 8 + 1024 \<le> unat len"
  proof (cases "0 < T")
    case True
    from fits(2) [OF True] have "8 * 1024 + T \<le> 8 * unat len" by (simp add: l1)
    then show ?thesis by linarith
  next
    case False
    then show ?thesis using room by simp
  qed
  have "unat len = (T + 7) div 8 + 1024" using upper lower by simp
  then show ?thesis using ec fits(1) l1 Tsum by auto
qed

text \<open>
  C7 at the empty input: every count is 0, the leaf sequence of \<open>sort_chars\<close> is the sentinel
  alone, and \<open>huff_tree\<close> takes the sentinel as its first node and then reads the count of
  \<open>sorted_leaf_nodes[1]\<close>, an element nothing has written. The run never reaches
  \<open>calc_out_buff_size\<close>: no size, and in particular not the 1024 bytes of an all-zero header
  and zero packed bits, is reported.
\<close>

theorem huffman_encode_empty_input:
  "sorted_leaf_nodes (sort_chars (count_chars [] (new_codec g))) = [Leaf 0 LAST_NODE]
   \<and> huffman_encode tie g [] = Inl Uninitialised"
  by (simp add: huffman_encode_def Let_def huff_tree_def sort_chars_empty huff_loop_no_leaves)

end
